theory Spec2Isabelle
  imports Complex_Main
begin

section \<open>Values, errors and Python built-ins\<close>

text \<open>
  The module \<open>gensim/summarization/summarizer.py\<close> is embedded function by function.
  Edge weights and PageRank scores are Python floats that the code only stores and
  compares: they are modelled as \<open>real\<close>. The ratio is multiplied, so it is a number
  of Python, an int or a finite double given by its mantissa and exponent, and the
  product \<open>len(corpus) * ratio\<close> is rounded as IEEE 754 double arithmetic rounds it.
  Strings are Python 3 strings: lists of code points.
\<close>

datatype error = ValueError | IndexError | KeyError | TypeError | OverflowError

text \<open>A string is the list of its code points: \<open>[0x61, 0x20, 0x62]\<close> is \<open>a b\<close>.\<close>

type_synonym pystr = "int list"

text \<open>
  Modelled from the spec: the class \<open>SyntacticUnit\<close> (module \<open>syntactic_unit\<close>) is
  not part of the sources at hand; the spec describes a Sentence as the record of its
  original display text, its normalized token string and its original position index.
\<close>

text \<open>The field \<open>text\<close> of the source is \<open>display_text\<close> here.\<close>

record sentence =
  display_text :: pystr
  token :: pystr
  index :: int

text \<open>A bag-of-words document is a list of (term id, term frequency) pairs.\<close>

type_synonym bow = "(int \<times> int) list"

text \<open>\<open>tuple(doc)\<close>: the immutable, hashable form of a list.\<close>

datatype 'a pytuple = Tuple "'a list"

fun list_of :: "'a pytuple \<Rightarrow> 'a list" where
  "list_of (Tuple xs) = xs"

text \<open>
  What \<open>summarize\<close> can return: a string, a list, or (inside a list) a sentence
  object. Python's \<open>[]\<close> is \<open>PyList []\<close> whatever its elements would have been.
\<close>

datatype pyval = PyStr pystr | PyList "pyval list" | PySentence sentence

text \<open>\<open>xs[i]\<close> for a non-negative index: IndexError out of range.\<close>

definition py_index :: "'a list \<Rightarrow> nat \<Rightarrow> error + 'a" where
  "py_index xs i = (if i < length xs then Inr (xs ! i) else Inl IndexError)"

text \<open>
  \<open>str.split()\<close> without argument: split at runs of whitespace, no empty words.
  The whitespace of a Python 3 string is the code points for which \<open>str.isspace\<close>
  holds.
\<close>

definition py_isspace :: "int \<Rightarrow> bool" where
  "py_isspace c =
     (c \<in> set [0x09, 0x0A, 0x0B, 0x0C, 0x0D, 0x1C, 0x1D, 0x1E, 0x1F, 0x20, 0x85, 0xA0, 0x1680,
                0x2000, 0x2001, 0x2002, 0x2003, 0x2004, 0x2005, 0x2006, 0x2007, 0x2008, 0x2009,
                0x200A, 0x2028, 0x2029, 0x202F, 0x205F, 0x3000])"

fun py_split_aux :: "pystr \<Rightarrow> pystr \<Rightarrow> pystr list" where
  "py_split_aux cur [] = (if cur = [] then [] else [cur])"
| "py_split_aux cur (c # cs) =
     (if py_isspace c
      then (if cur = [] then py_split_aux [] cs else cur # py_split_aux [] cs)
      else py_split_aux (cur @ [c]) cs)"

definition py_split :: "pystr \<Rightarrow> pystr list" where
  "py_split s = py_split_aux [] s"

text \<open>\<open>sep.join(xs)\<close>.\<close>

fun py_join :: "pystr \<Rightarrow> pystr list \<Rightarrow> pystr" where
  "py_join sep [] = []"
| "py_join sep [x] = x"
| "py_join sep (x # y # ys) = x @ sep @ py_join sep (y # ys)"

text \<open>\<open>dict(pairs)\<close>: the pairs are inserted in order, a later pair overwrites.\<close>

fun py_dict :: "('k \<times> 'v) list \<Rightarrow> ('k \<rightharpoonup> 'v) \<Rightarrow> ('k \<rightharpoonup> 'v)" where
  "py_dict [] m = m"
| "py_dict ((k, v) # kvs) m = py_dict kvs (m(k \<mapsto> v))"

text \<open>\<open>d[k]\<close>: KeyError on a missing key; \<open>d.get(k, default)\<close>.\<close>

definition py_getitem :: "('k \<rightharpoonup> 'v) \<Rightarrow> 'k \<Rightarrow> error + 'v" where
  "py_getitem d k = (case d k of None \<Rightarrow> Inl KeyError | Some v \<Rightarrow> Inr v)"

definition py_get :: "('k \<rightharpoonup> 'v) \<Rightarrow> 'k \<Rightarrow> 'v \<Rightarrow> 'v" where
  "py_get d k dflt = (case d k of None \<Rightarrow> dflt | Some v \<Rightarrow> v)"

text \<open>
  Numbers. \<open>PyInt k\<close> is the int \<open>k\<close>; \<open>PyFloat m e\<close> is the finite double
  \<open>m * 2 ^ e\<close>. \<open>num_val\<close> is the exact value.
\<close>

datatype pynum = PyInt int | PyFloat int int


text \<open>\<open>int.bit_length\<close> of a non-negative int: the number of its binary digits.\<close>

function bit_length :: "int \<Rightarrow> nat" where
  "bit_length a = (if a \<le> 0 then 0 else Suc (bit_length (a div 2)))"
  by pat_completeness auto
termination
  by (relation "measure nat") auto

declare bit_length.simps [simp del]

text \<open>
  The double nearest to \<open>m * 2 ^ e\<close>, ties to the even mantissa: 53 binary digits,
  exponent at least -1074 (subnormal numbers), and infinity from \<open>2 ^ 1024\<close> on.
  Infinity only ever reaches \<open>int()\<close> here, which raises OverflowError, as the
  conversion of a too large int to a float does.
\<close>

definition round_to_double :: "int \<Rightarrow> int \<Rightarrow> error + int \<times> int" where
  "round_to_double m e =
     (let a = \<bar>m\<bar>;
          shift = max (int (bit_length a) - 53) (- 1074 - e);
          r = (if shift \<le> 0 then (m, e)
               else (let p = 2 ^ nat shift; q = a div p; rest = a mod p; half = p div 2;
                         q' = (if half < rest \<or> (rest = half \<and> odd q) then q + 1 else q)
                     in (sgn m * q', e + shift)))
      in if 1024 < int (bit_length \<bar>fst r\<bar>) + snd r then Inl OverflowError else Inr r)"

text \<open>\<open>int(x)\<close> of a double truncates towards zero.\<close>

definition int_of_double :: "int \<times> int \<Rightarrow> int" where
  "int_of_double x =
     (case x of (m, e) \<Rightarrow> if 0 \<le> e then m * 2 ^ nat e else sgn m * (\<bar>m\<bar> div 2 ^ nat (- e)))"

text \<open>
  \<open>int(len(corpus) * ratio)\<close>: exact for an int ratio; for a float ratio the length
  is converted to a double and the product of the two doubles is rounded.
\<close>

definition int_len_times :: "nat \<Rightarrow> pynum \<Rightarrow> error + int" where
  "int_len_times n ratio =
     (case ratio of PyInt k \<Rightarrow> Inr (int n * k)
      | PyFloat m e \<Rightarrow>
          (case round_to_double (int n) 0 of Inl err \<Rightarrow> Inl err
           | Inr (m1, e1) \<Rightarrow>
               (case round_to_double (m1 * m) (e1 + e) of Inl err \<Rightarrow> Inl err
                | Inr x \<Rightarrow> Inr (int_of_double x))))"

text \<open>\<open>xs[:k]\<close> counts a negative \<open>k\<close> from the end.\<close>

definition py_slice_to :: "'a list \<Rightarrow> int \<Rightarrow> 'a list" where
  "py_slice_to xs k = (if 0 \<le> k then take (nat k) xs else take (nat (int (length xs) + k)) xs)"

text \<open>Running a list of fallible steps, stopping at the first exception.\<close>

fun map_result :: "('a \<Rightarrow> error + 'b) \<Rightarrow> 'a list \<Rightarrow> error + 'b list" where
  "map_result f [] = Inr []"
| "map_result f (x # xs) =
     (case f x of Inl e \<Rightarrow> Inl e
      | Inr y \<Rightarrow> (case map_result f xs of Inl e \<Rightarrow> Inl e | Inr ys \<Rightarrow> Inr (y # ys)))"

section \<open>The similarity graph\<close>

text \<open>
  Modelled from the spec: the class \<open>Graph\<close> (module \<open>graph\<close>) and \<open>build_graph\<close>
  (module \<open>commons\<close>) are not part of the sources at hand. The spec gives the graph as
  a node list in insertion order, duplicates merged into one node, and a set of edges
  between unordered pairs of nodes, each with one scalar weight, with the operations
  \<open>nodes\<close>, \<open>has_edge\<close>, \<open>add_edge\<close>, \<open>del_edge\<close>, \<open>edge_weight\<close> and \<open>iter_edges\<close>.
  An edge is stored once, under the ordered pair it was added with, and found under
  both orders.
\<close>

record 'n graph =
  node_list :: "'n list"
  edge_list :: "(('n \<times> 'n) \<times> real) list"

definition nodes :: "'n graph \<Rightarrow> 'n list" where
  "nodes g = node_list g"

definition same_edge :: "'n \<times> 'n \<Rightarrow> 'n \<times> 'n \<Rightarrow> bool" where
  "same_edge e e' = (e' = e \<or> e' = (snd e, fst e))"

definition has_edge :: "'n graph \<Rightarrow> 'n \<times> 'n \<Rightarrow> bool" where
  "has_edge g e = list_ex (\<lambda>x. same_edge e (fst x)) (edge_list g)"

definition add_edge :: "'n graph \<Rightarrow> 'n \<times> 'n \<Rightarrow> real \<Rightarrow> 'n graph" where
  "add_edge g e w = g\<lparr>edge_list := edge_list g @ [(e, w)]\<rparr>"

definition del_edge :: "'n graph \<Rightarrow> 'n \<times> 'n \<Rightarrow> 'n graph" where
  "del_edge g e = g\<lparr>edge_list := filter (\<lambda>x. \<not> same_edge e (fst x)) (edge_list g)\<rparr>"

definition edge_weight :: "'n graph \<Rightarrow> 'n \<times> 'n \<Rightarrow> real option" where
  "edge_weight g e = map_option snd (find (\<lambda>x. same_edge e (fst x)) (edge_list g))"

definition iter_edges :: "'n graph \<Rightarrow> ('n \<times> 'n) list" where
  "iter_edges g = map fst (edge_list g)"

fun add_nodes :: "'n list \<Rightarrow> 'n list \<Rightarrow> 'n list" where
  "add_nodes [] acc = acc"
| "add_nodes (x # xs) acc = (if x \<in> set acc then add_nodes xs acc else add_nodes xs (acc @ [x]))"

definition build_graph :: "'n list \<Rightarrow> 'n graph" where
  "build_graph items = \<lparr>node_list = add_nodes items [], edge_list = []\<rparr>"

section \<open>The graph weighter\<close>

definition WEIGHT_THRESHOLD :: real where
  "WEIGHT_THRESHOLD = 1 / 1000"

definition INPUT_MIN_LENGTH :: nat where
  "INPUT_MIN_LENGTH = 2"

text \<open>
  \<open>_create_valid_graph\<close>: for every ordered pair of different positions, delete the
  edge if it is there and add it with weight 1. \<open>valid_step\<close> is the body of the
  inner loop at the positions \<open>(i, j)\<close>.
\<close>

definition valid_step :: "'n list \<Rightarrow> nat \<times> nat \<Rightarrow> 'n graph \<Rightarrow> 'n graph" where
  "valid_step nodes' p g =
     (case p of (i, j) \<Rightarrow>
        if i = j then g
        else (let edge = (nodes' ! i, nodes' ! j);
                  g1 = (if has_edge g edge then del_edge g edge else g)
              in add_edge g1 edge 1))"

definition create_valid_graph :: "'n graph \<Rightarrow> 'n graph" where
  "create_valid_graph graph =
     (let nodes' = nodes graph in
      fold (\<lambda>i. fold (\<lambda>j. valid_step nodes' (i, j)) [0 ..< length nodes'])
        [0 ..< length nodes'] graph)"

text \<open>
  The inner loop of \<open>_set_graph_edge_weights\<close> over one row \<open>doc_bow\<close> of the BM25
  table, and the outer loop over the rows with their position \<open>i\<close>. The table comes
  from the relevance-scoring collaborator \<open>iter_bm25_bow\<close>, which is a parameter.
\<close>

fun weigh_row :: "'n list \<Rightarrow> nat \<Rightarrow> (nat \<times> real) list \<Rightarrow> 'n graph \<Rightarrow> error + 'n graph" where
  "weigh_row documents i [] g = Inr g"
| "weigh_row documents i ((j, weight) # rest) g =
     (if i = j \<or> weight < WEIGHT_THRESHOLD then weigh_row documents i rest g
      else (case py_index documents i of Inl e \<Rightarrow> Inl e
            | Inr di \<Rightarrow> (case py_index documents j of Inl e \<Rightarrow> Inl e
            | Inr dj \<Rightarrow>
                weigh_row documents i rest
                  (if \<not> has_edge g (di, dj) then add_edge g (di, dj) weight else g))))"

fun weigh_rows :: "'n list \<Rightarrow> nat \<Rightarrow> (nat \<times> real) list list \<Rightarrow> 'n graph \<Rightarrow> error + 'n graph" where
  "weigh_rows documents i [] g = Inr g"
| "weigh_rows documents i (doc_bow # rows) g =
     (case weigh_row documents i doc_bow g of Inl e \<Rightarrow> Inl e
      | Inr g' \<Rightarrow> weigh_rows documents (Suc i) rows g')"

definition weighting_pass :: "('n list \<Rightarrow> (nat \<times> real) list list) \<Rightarrow> 'n graph \<Rightarrow> error + 'n graph" where
  "weighting_pass bm25 graph =
     (let documents = nodes graph; weights = bm25 documents
      in weigh_rows documents 0 weights graph)"

definition all_weights_zero :: "'n graph \<Rightarrow> bool" where
  "all_weights_zero g = list_all (\<lambda>edge. edge_weight g edge = Some 0) (iter_edges g)"

definition set_graph_edge_weights ::
  "('n list \<Rightarrow> (nat \<times> real) list list) \<Rightarrow> 'n graph \<Rightarrow> error + 'n graph" where
  "set_graph_edge_weights bm25 graph =
     (case weighting_pass bm25 graph of Inl e \<Rightarrow> Inl e
      | Inr g \<Rightarrow> Inr (if all_weights_zero g then create_valid_graph g else g))"

section \<open>The sentence selector\<close>

definition build_hasheable_corpus :: "'a list list \<Rightarrow> 'a pytuple list" where
  "build_hasheable_corpus corpus = map Tuple corpus"

definition get_important_sentences ::
  "sentence list \<Rightarrow> bow list \<Rightarrow> bow list \<Rightarrow> error + sentence list" where
  "get_important_sentences sentences corpus important_docs =
     (let hashable_corpus = build_hasheable_corpus corpus;
          sentences_by_corpus = py_dict (zip hashable_corpus sentences) Map.empty
      in map_result (\<lambda>important_doc. py_getitem sentences_by_corpus (Tuple important_doc))
           important_docs)"

definition words_in :: "sentence \<Rightarrow> int" where
  "words_in s = int (length (py_split (display_text s)))"

fun word_count_loop :: "sentence list \<Rightarrow> int \<Rightarrow> int \<Rightarrow> sentence list \<Rightarrow> sentence list" where
  "word_count_loop [] word_count len selected = selected"
| "word_count_loop (s # rest) word_count len selected =
     (let words_in_sentence = words_in s in
      if \<bar>word_count - len - words_in_sentence\<bar> > \<bar>word_count - len\<bar> then selected
      else word_count_loop rest word_count (len + words_in_sentence) (selected @ [s]))"

definition get_sentences_with_word_count :: "sentence list \<Rightarrow> int \<Rightarrow> sentence list" where
  "get_sentences_with_word_count sentences word_count = word_count_loop sentences word_count 0 []"

text \<open>
  \<open>_get_group_of_best_sentences\<close>. The Python set is kept as the list of its elements
  in insertion order; Python returns them in an order of its own, so only the set and
  the number of the returned elements are meaningful.
\<close>

function group_loop :: "'a list \<Rightarrow> int \<Rightarrow> nat \<Rightarrow> int \<Rightarrow> 'a list \<Rightarrow> 'a list" where
  "group_loop sentences nb_sentences i count selected =
     (if count \<le> nb_sentences \<and> i < length sentences
      then (if sentences ! i \<notin> set selected
            then group_loop sentences nb_sentences (Suc i) (count + 1) (selected @ [sentences ! i])
            else group_loop sentences nb_sentences (Suc i) count selected)
      else selected)"
  by pat_completeness auto
termination
  by (relation "measure (\<lambda>(sentences, nb_sentences, i, count, selected). length sentences - i)") auto

declare group_loop.simps [simp del]

definition get_group_of_best_sentences :: "'a list \<Rightarrow> int \<Rightarrow> error + 'a list" where
  "get_group_of_best_sentences sentences nb_sentences =
     (case py_index sentences 0 of Inl e \<Rightarrow> Inl e
      | Inr first \<Rightarrow> Inr (group_loop sentences nb_sentences 1 1 [first]))"

definition extract_important_sentences ::
  "sentence list \<Rightarrow> bow list \<Rightarrow> bow list \<Rightarrow> int option \<Rightarrow> int option \<Rightarrow> error + sentence list" where
  "extract_important_sentences sentences corpus important_docs word_count nb_sentences =
     (case get_important_sentences sentences corpus important_docs of Inl e \<Rightarrow> Inl e
      | Inr important_sentences \<Rightarrow>
          (case word_count of
             Some wc \<Rightarrow> Inr (get_sentences_with_word_count important_sentences wc)
           | None \<Rightarrow>
               (case nb_sentences of
                  Some nb \<Rightarrow> get_group_of_best_sentences important_sentences nb
                | None \<Rightarrow> Inr important_sentences)))"

definition format_results :: "sentence list \<Rightarrow> bool \<Rightarrow> pyval" where
  "format_results extracted_sentences split =
     (if split then PyList (map (\<lambda>sentence. PyStr (display_text sentence)) extracted_sentences)
      else PyStr (py_join [0x0A] (map display_text extracted_sentences)))"

section \<open>The corpus ranker and \<open>summarize\<close>\<close>

text \<open>
  The collaborators that live in other modules are parameters: sentence segmentation
  (\<open>clean_text_by_sentences\<close>), the vocabulary (\<open>Dictionary\<close> and its \<open>doc2bow\<close>),
  relevance scoring (\<open>iter_bm25_bow\<close>), pruning (\<open>remove_unreachable_nodes\<close>) and
  ranking (\<open>pagerank_weighted\<close>).
\<close>

record 'd collaborators =
  clean_text_by_sentences :: "pystr \<Rightarrow> sentence list"
  Dictionary :: "pystr list list \<Rightarrow> 'd"
  doc2bow :: "'d \<Rightarrow> pystr list \<Rightarrow> bow"
  bm25_weights :: "(int \<times> int) pytuple list \<Rightarrow> (nat \<times> real) list list"
  remove_unreachable_nodes :: "(int \<times> int) pytuple graph \<Rightarrow> (int \<times> int) pytuple graph"
  pagerank :: "(int \<times> int) pytuple graph \<Rightarrow> ((int \<times> int) pytuple \<rightharpoonup> real)"

definition build_corpus :: "'d collaborators \<Rightarrow> sentence list \<Rightarrow> bow list" where
  "build_corpus env sentences =
     (let split_tokens = map (\<lambda>sentence. py_split (token sentence)) sentences;
          dictionary = Dictionary env split_tokens
      in map (\<lambda>token. doc2bow env dictionary token) split_tokens)"

text \<open>
  \<open>hashable_corpus.sort(key=..., reverse=True)\<close> is a stable sort by descending key:
  equal keys keep their order. That is the stable ascending sort by the negated key.
\<close>

definition summarize_corpus :: "'d collaborators \<Rightarrow> bow list \<Rightarrow> pynum \<Rightarrow> error + bow list" where
  "summarize_corpus env corpus ratio =
     (let hashable_corpus = build_hasheable_corpus corpus in
      if length corpus = 0 then Inr []
      else (case set_graph_edge_weights (bm25_weights env) (build_graph hashable_corpus) of
              Inl e \<Rightarrow> Inl e
            | Inr graph1 \<Rightarrow>
                (let graph = remove_unreachable_nodes env graph1 in
                 if length (nodes graph) < 3 then Inr []
                 else (let pagerank_scores = pagerank env graph;
                           sorted_corpus = sort_key (\<lambda>doc. - py_get pagerank_scores doc 0) hashable_corpus
                       in (case int_len_times (length corpus) ratio of Inl e \<Rightarrow> Inl e
                           | Inr k \<Rightarrow> Inr (map list_of (py_slice_to sorted_corpus k)))))))"

definition summarize ::
  "'d collaborators \<Rightarrow> pystr \<Rightarrow> pynum \<Rightarrow> int option \<Rightarrow> int option \<Rightarrow> bool \<Rightarrow> error + pyval" where
  "summarize env txt ratio word_count nb_sentences split =
     (let sentences = clean_text_by_sentences env txt in
      if length sentences = 0 then Inr (if split then PyList [] else PyStr [])
      else if length sentences = 1 then Inl ValueError
      else (let corpus = build_corpus env sentences;
                ratio_value = (if word_count \<noteq> None \<or> nb_sentences \<noteq> None then PyInt 1 else ratio)
            in (case summarize_corpus env corpus ratio_value of Inl e \<Rightarrow> Inl e
                | Inr most_important_docs \<Rightarrow>
                    if most_important_docs = [] then Inr (if split then PyList [] else PyStr [])
                    else (case extract_important_sentences sentences corpus most_important_docs
                                 word_count nb_sentences of
                            Inl e \<Rightarrow> Inl e
                          | Inr extracted_sentences \<Rightarrow>
                              Inr (PyList (map PySentence extracted_sentences))))))"

section \<open>An instance of the collaborators\<close>

text \<open>
  Small stand-ins for the collaborators, used to run the pipeline on concrete texts:
  one sentence per non-empty line, term ids in order of first occurrence, the number
  of shared terms as relevance weight, nodes without an edge pruned, and the sum of the
  weights at a node as its score.
\<close>

fun split_lines :: "pystr \<Rightarrow> pystr \<Rightarrow> pystr list" where
  "split_lines cur [] = (if cur = [] then [] else [cur])"
| "split_lines cur (c # cs) =
     (if c = 0x0A
      then (if cur = [] then split_lines [] cs else cur # split_lines [] cs)
      else split_lines (cur @ [c]) cs)"

definition example_clean :: "pystr \<Rightarrow> sentence list" where
  "example_clean txt =
     map (\<lambda>(i, l). \<lparr>display_text = l, token = l, index = int i\<rparr>) (enumerate 0 (split_lines [] txt))"

definition example_doc2bow :: "pystr list \<Rightarrow> pystr list \<Rightarrow> bow" where
  "example_doc2bow d toks =
     map (\<lambda>i. (int i, int (count_list toks (d ! i)))) (filter (\<lambda>i. d ! i \<in> set toks) [0 ..< length d])"

definition example_bm25 :: "(int \<times> int) pytuple list \<Rightarrow> (nat \<times> real) list list" where
  "example_bm25 docs =
     map (\<lambda>q. map (\<lambda>j. (j, real (length (filter (\<lambda>t. t \<in> set (map fst (list_of (docs ! j))))
                                              (map fst (list_of q))))))
                [0 ..< length docs]) docs"

definition touches :: "'n \<Rightarrow> ('n \<times> 'n) \<times> real \<Rightarrow> bool" where
  "touches n x = (fst (fst x) = n \<or> snd (fst x) = n)"

definition example_prune :: "'n graph \<Rightarrow> 'n graph" where
  "example_prune g = g\<lparr>node_list := filter (\<lambda>n. list_ex (touches n) (edge_list g)) (node_list g)\<rparr>"

definition example_rank :: "'n graph \<Rightarrow> ('n \<rightharpoonup> real)" where
  "example_rank g =
     (\<lambda>n. if n \<in> set (node_list g) then Some (sum_list (map snd (filter (touches n) (edge_list g))))
          else None)"

definition example_env :: "pystr list collaborators" where
  "example_env =
     \<lparr>clean_text_by_sentences = example_clean,
      Dictionary = (\<lambda>docs. remdups (concat docs)),
      doc2bow = example_doc2bow,
      bm25_weights = example_bm25,
      remove_unreachable_nodes = example_prune,
      pagerank = example_rank\<rparr>"

definition example_text :: pystr where
  "example_text = [0x61, 0x20, 0x62] @ [0x0A] @ [0x62, 0x20, 0x63] @ [0x0A] @ [0x63, 0x20, 0x64]"

definition example_first :: sentence where
  "example_first = \<lparr>display_text = [0x61, 0x20, 0x62], token = [0x61, 0x20, 0x62], index = 0\<rparr>"

definition example_second :: sentence where
  "example_second = \<lparr>display_text = [0x62, 0x20, 0x61], token = [0x62, 0x20, 0x61], index = 1\<rparr>"

text \<open>The words of a list of sentences together: the running word count of the selector.\<close>

definition total_words :: "sentence list \<Rightarrow> int" where
  "total_words ss = sum_list (map words_in ss)"

text \<open>Three ranked sentences of 4, 5 and 7 words.\<close>

definition example_ranked :: "sentence list" where
  "example_ranked =
     [\<lparr>display_text = [0x61, 0x20, 0x62, 0x20, 0x63, 0x20, 0x64], token = [0x61, 0x20, 0x62, 0x20, 0x63, 0x20, 0x64], index = 2\<rparr>,
      \<lparr>display_text = [0x65, 0x20, 0x66, 0x20, 0x67, 0x20, 0x68, 0x20, 0x69], token = [0x65, 0x20, 0x66, 0x20, 0x67, 0x20, 0x68, 0x20, 0x69], index = 0\<rparr>,
      \<lparr>display_text = [0x6A, 0x20, 0x6B, 0x20, 0x6C, 0x20, 0x6D, 0x20, 0x6E, 0x20, 0x6F, 0x20, 0x70], token = [0x6A, 0x20, 0x6B, 0x20, 0x6C, 0x20, 0x6D, 0x20, 0x6E, 0x20, 0x6F, 0x20, 0x70], index = 1\<rparr>]"

text \<open>The corpus of \<open>example_text\<close> and its summary at ratio 1.\<close>

definition example_corpus :: "bow list" where
  "example_corpus = [[(0, 1), (1, 1)], [(1, 1), (2, 1)], [(2, 1), (3, 1)]]"

text \<open>The doubles 0.2, 0.5 and 0.6.\<close>

definition ratio_0_2 :: pynum where
  "ratio_0_2 = PyFloat 3602879701896397 (- 54)"

definition ratio_0_5 :: pynum where
  "ratio_0_5 = PyFloat 1 (- 1)"


text \<open>A text of five sentences, its corpus and its weighted graph.\<close>

definition example_text5 :: pystr where
  "example_text5 =
     [0x61, 0x20, 0x62] @ [0x0A] @ [0x62, 0x20, 0x63] @ [0x0A] @ [0x63, 0x20, 0x64] @ [0x0A] @ [0x64, 0x20, 0x65]
       @ [0x0A] @ [0x65, 0x20, 0x66]"

definition example_corpus5 :: "bow list" where
  "example_corpus5 =
     [[(0, 1), (1, 1)], [(1, 1), (2, 1)], [(2, 1), (3, 1)], [(3, 1), (4, 1)], [(4, 1), (5, 1)]]"


text \<open>A sentence whose text is \<open>a\<close>, a no-break space (U+00A0), \<open>b\<close>, a space and
  \<open>c\<close>: three words.\<close>

definition example_nbsp :: sentence where
  "example_nbsp = \<lparr>display_text = [0x61, 0xA0, 0x62, 0x20, 0x63], token = [0x61, 0x20, 0x62, 0x20, 0x63], index = 0\<rparr>"

definition example_summary :: "sentence list" where
  "example_summary =
     [\<lparr>display_text = [0x62, 0x20, 0x63], token = [0x62, 0x20, 0x63], index = 1\<rparr>,
      \<lparr>display_text = [0x61, 0x20, 0x62], token = [0x61, 0x20, 0x62], index = 0\<rparr>,
      \<lparr>display_text = [0x63, 0x20, 0x64], token = [0x63, 0x20, 0x64], index = 2\<rparr>]"

text \<open>
  The entries of the BM25 table in the order the two loops of
  \<open>_set_graph_edge_weights\<close> visit them: (row position, candidate position, weight).
\<close>

fun flat_entries :: "nat \<Rightarrow> (nat \<times> real) list list \<Rightarrow> (nat \<times> nat \<times> real) list" where
  "flat_entries i [] = []"
| "flat_entries i (doc_bow # rows) = map (\<lambda>(j, weight). (i, j, weight)) doc_bow @ flat_entries (Suc i) rows"

text \<open>An entry that passes the test of the inner loop, and one that does so for the
  positions \<open>a\<close> and \<open>b\<close> in either direction.\<close>

definition passes :: "nat \<times> nat \<times> real \<Rightarrow> bool" where
  "passes x = (case x of (i, j, weight) \<Rightarrow> \<not> (i = j \<or> weight < WEIGHT_THRESHOLD))"

definition connects :: "nat \<Rightarrow> nat \<Rightarrow> nat \<times> nat \<times> real \<Rightarrow> bool" where
  "connects a b x = (case x of (i, j, weight) \<Rightarrow> passes x \<and> ((i = a \<and> j = b) \<or> (i = b \<and> j = a)))"

text \<open>The loops over the flattened table: one step per entry.\<close>

fun weigh_entries :: "'n list \<Rightarrow> (nat \<times> nat \<times> real) list \<Rightarrow> 'n graph \<Rightarrow> error + 'n graph" where
  "weigh_entries documents [] g = Inr g"
| "weigh_entries documents ((i, j, weight) # rest) g =
     (if i = j \<or> weight < WEIGHT_THRESHOLD then weigh_entries documents rest g
      else (case py_index documents i of Inl e \<Rightarrow> Inl e
            | Inr di \<Rightarrow> (case py_index documents j of Inl e \<Rightarrow> Inl e
            | Inr dj \<Rightarrow>
                weigh_entries documents rest
                  (if \<not> has_edge g (di, dj) then add_edge g (di, dj) weight else g))))"

text \<open>Graph invariants: no self-edge, and at most one stored weight per unordered pair.\<close>

definition no_self_edges :: "'n graph \<Rightarrow> bool" where
  "no_self_edges g = list_all (\<lambda>x. fst (fst x) \<noteq> snd (fst x)) (edge_list g)"

definition single_weighted :: "'n graph \<Rightarrow> bool" where
  "single_weighted g =
     (distinct (map fst (edge_list g))
      \<and> list_all (\<lambda>e. list_all (\<lambda>e'. same_edge e e' = (e = e')) (iter_edges g)) (iter_edges g))"

text \<open>A graph whose node list has no duplicate and whose edges join two different
  nodes of the list.\<close>

definition wf_graph :: "'n graph \<Rightarrow> bool" where
  "wf_graph g =
     (distinct (node_list g)
      \<and> list_all (\<lambda>x. fst (fst x) \<in> set (node_list g) \<and> snd (fst x) \<in> set (node_list g)
                      \<and> fst (fst x) \<noteq> snd (fst x)) (edge_list g))"

text \<open>
  A relevance table with both directions of the pair of positions 0 and 1 above the
  threshold and different, and the graph it gives on the nodes a, b, c; a graph whose
  only edge has weight zero, a table with no weight above the threshold, and the
  complete graph that results.
\<close>

definition example_table :: "(nat \<times> real) list list" where
  "example_table = [[(0, 1), (1, 1 / 2), (2, 1 / 2000)], [(0, 7 / 10), (1, 1)], []]"

definition example_weighted :: "char graph" where
  "example_weighted = \<lparr>node_list = ''abc'', edge_list = [((CHR ''a'', CHR ''b''), 1 / 2)]\<rparr>"

definition example_zero :: "char graph" where
  "example_zero = \<lparr>node_list = ''abc'', edge_list = [((CHR ''c'', CHR ''a''), 0)]\<rparr>"

definition example_low :: "(nat \<times> real) list list" where
  "example_low = [[(1, 1 / 2000)], [], []]"

definition example_complete :: "char graph" where
  "example_complete =
     \<lparr>node_list = ''abc'',
      edge_list = [((CHR ''b'', CHR ''a''), 1), ((CHR ''c'', CHR ''a''), 1), ((CHR ''c'', CHR ''b''), 1)]\<rparr>"

section \<open>The corpus ranker on a store of objects\<close>

text \<open>
  Python lists are mutable objects reached through references. To tell what
  \<open>summarize_corpus\<close> does to its argument, the lists live in a store: the corpus is
  the address of a list of addresses of documents, a document is a list of pairs,
  \<open>hashable_corpus\<close> is a list of tuples. Pairs and tuples are immutable values. A
  store allocates at \<open>next_addr\<close>. An address that holds no object of the expected
  kind is a TypeError.
\<close>

type_synonym addr = nat

datatype obj = RefList "addr list" | PairList bow | TupleList "(int \<times> int) pytuple list"

record store =
  cells :: "addr \<rightharpoonup> obj"
  next_addr :: addr

definition wf_store :: "store \<Rightarrow> bool" where
  "wf_store s = (\<forall>a. next_addr s \<le> a \<longrightarrow> cells s a = None)"

definition alloc :: "obj \<Rightarrow> store \<Rightarrow> addr \<times> store" where
  "alloc v s = (next_addr s, s\<lparr>cells := (cells s)(next_addr s \<mapsto> v), next_addr := Suc (next_addr s)\<rparr>)"

definition load_refs :: "store \<Rightarrow> addr \<Rightarrow> error + addr list" where
  "load_refs s a = (case cells s a of Some (RefList refs) \<Rightarrow> Inr refs | _ \<Rightarrow> Inl TypeError)"

definition load_doc :: "store \<Rightarrow> addr \<Rightarrow> error + bow" where
  "load_doc s a = (case cells s a of Some (PairList doc) \<Rightarrow> Inr doc | _ \<Rightarrow> Inl TypeError)"

definition load_tuples :: "store \<Rightarrow> addr \<Rightarrow> error + (int \<times> int) pytuple list" where
  "load_tuples s a = (case cells s a of Some (TupleList ts) \<Rightarrow> Inr ts | _ \<Rightarrow> Inl TypeError)"

text \<open>The value of a corpus: its documents, read through the references.\<close>

definition read_corpus :: "store \<Rightarrow> addr \<Rightarrow> error + bow list" where
  "read_corpus s a =
     (case load_refs s a of Inl e \<Rightarrow> Inl e | Inr refs \<Rightarrow> map_result (load_doc s) refs)"

text \<open>\<open>[tuple(doc) for doc in corpus]\<close>: a new list object.\<close>

definition build_hasheable_corpus_st :: "store \<Rightarrow> addr \<Rightarrow> (error + addr) \<times> store" where
  "build_hasheable_corpus_st s corpus =
     (case read_corpus s corpus of Inl e \<Rightarrow> (Inl e, s)
      | Inr docs \<Rightarrow> (case alloc (TupleList (map Tuple docs)) s of (h, s') \<Rightarrow> (Inr h, s')))"

text \<open>\<open>xs.sort(key=..., reverse=True)\<close>: the list object at \<open>a\<close> is overwritten.\<close>

definition sort_in_place :: "store \<Rightarrow> addr \<Rightarrow> ((int \<times> int) pytuple \<Rightarrow> real) \<Rightarrow> error + store" where
  "sort_in_place s a key =
     (case load_tuples s a of Inl e \<Rightarrow> Inl e
      | Inr ts \<Rightarrow> Inr (s\<lparr>cells := (cells s)(a \<mapsto> TupleList (sort_key (\<lambda>doc. - key doc) ts))\<rparr>))"

text \<open>\<open>[list(doc) for doc in docs]\<close>: a new list object for each document and one
  for the list of them.\<close>

fun alloc_docs :: "bow list \<Rightarrow> store \<Rightarrow> addr list \<times> store" where
  "alloc_docs [] s = ([], s)"
| "alloc_docs (doc # docs) s =
     (case alloc (PairList doc) s of (a, s') \<Rightarrow>
        (case alloc_docs docs s' of (as, s'') \<Rightarrow> (a # as, s'')))"

definition new_corpus :: "bow list \<Rightarrow> store \<Rightarrow> (error + addr) \<times> store" where
  "new_corpus docs s =
     (case alloc_docs docs s of (as, s') \<Rightarrow>
        (case alloc (RefList as) s' of (a, s'') \<Rightarrow> (Inr a, s'')))"

definition summarize_corpus_st ::
  "'d collaborators \<Rightarrow> store \<Rightarrow> addr \<Rightarrow> pynum \<Rightarrow> (error + addr) \<times> store" where
  "summarize_corpus_st env s corpus ratio =
     (case build_hasheable_corpus_st s corpus of
        (Inl e, s1) \<Rightarrow> (Inl e, s1)
      | (Inr hashable_corpus, s1) \<Rightarrow>
          (case load_refs s1 corpus of Inl e \<Rightarrow> (Inl e, s1)
           | Inr refs \<Rightarrow>
               if length refs = 0 then new_corpus [] s1
               else (case load_tuples s1 hashable_corpus of Inl e \<Rightarrow> (Inl e, s1)
                     | Inr tuples \<Rightarrow>
                   (case set_graph_edge_weights (bm25_weights env) (build_graph tuples) of
                      Inl e \<Rightarrow> (Inl e, s1)
                    | Inr graph1 \<Rightarrow>
                        (let graph = remove_unreachable_nodes env graph1 in
                         if length (nodes graph) < 3 then new_corpus [] s1
                         else (let pagerank_scores = pagerank env graph in
                               case sort_in_place s1 hashable_corpus
                                      (\<lambda>doc. py_get pagerank_scores doc 0) of
                                 Inl e \<Rightarrow> (Inl e, s1)
                               | Inr s2 \<Rightarrow>
                                   (case load_tuples s2 hashable_corpus of Inl e \<Rightarrow> (Inl e, s2)
                                    | Inr sorted_corpus \<Rightarrow>
                                        (case int_len_times (length refs) ratio of
                                           Inl e \<Rightarrow> (Inl e, s2)
                                         | Inr k \<Rightarrow>
                                             new_corpus (map list_of (py_slice_to sorted_corpus k))
                                               s2))))))))"

text \<open>\<open>s'\<close> keeps every object of \<open>s\<close> as it is and only adds new ones.\<close>

definition extends :: "store \<Rightarrow> store \<Rightarrow> bool" where
  "extends s s' =
     ((\<forall>a < next_addr s. cells s' a = cells s a) \<and> next_addr s \<le> next_addr s' \<and> wf_store s')"

text \<open>A store with a corpus of three documents at address 3.\<close>

definition example_store :: store where
  "example_store =
     \<lparr>cells = [0 \<mapsto> PairList [(0, 1), (1, 1)], 1 \<mapsto> PairList [(1, 1), (2, 1)],
               2 \<mapsto> PairList [(2, 1), (3, 1)], 3 \<mapsto> RefList [0, 1, 2]],
      next_addr = 4\<rparr>"

section \<open>Input validity in \<open>summarize\<close>\<close>

text \<open>
  C7: when exactly one sentence is detected in the text, \<open>summarize\<close> raises
  ValueError, and so produces no result, whatever the ratio, the word count, the
  sentence count and the split flag are.
\<close>

theorem summarize_one_sentence_raises:
  assumes "length (clean_text_by_sentences env txt) = 1"
  shows "summarize env txt ratio word_count nb_sentences split = Inl ValueError"
proof -
  from assms have "clean_text_by_sentences env txt \<noteq> []"
    by auto
  with assms show ?thesis
    by (simp add: summarize_def Let_def)
qed

theorem summarize_one_sentence_raises_witness:
  "length (clean_text_by_sentences example_env [0x61, 0x20, 0x62]) = 1
   \<and> summarize example_env [0x61, 0x20, 0x62] ratio_0_2 (Some 2) None True = Inl ValueError"
proof -
  have one: "length (clean_text_by_sentences example_env [0x61, 0x20, 0x62]) = 1"
    by code_simp
  show ?thesis
    using one summarize_one_sentence_raises [OF one, of ratio_0_2 "Some 2" None True] by simp
qed

text \<open>
  C8: when no sentence is detected in the text, \<open>summarize\<close> raises nothing and
  returns the empty result of the requested format: the empty list when \<open>split\<close>
  is true, the empty string otherwise.
\<close>

theorem summarize_no_sentence_empty:
  assumes "clean_text_by_sentences env txt = []"
  shows "summarize env txt ratio word_count nb_sentences split
         = Inr (if split then PyList [] else PyStr [])"
  using assms by (simp add: summarize_def Let_def)

theorem summarize_no_sentence_empty_witness:
  "clean_text_by_sentences example_env [] = []
   \<and> summarize example_env [] ratio_0_2 None None True = Inr (PyList [])
   \<and> summarize example_env [] ratio_0_2 None None False = Inr (PyStr [])"
proof -
  have none: "clean_text_by_sentences example_env [] = []"
    by code_simp
  show ?thesis
    using none summarize_no_sentence_empty [OF none, of ratio_0_2 None None True]
      summarize_no_sentence_empty [OF none, of ratio_0_2 None None False]
    by simp
qed

section \<open>Resolving ranked documents to sentences\<close>

lemma py_dict_absent: "k \<notin> fst ` set kvs \<Longrightarrow> py_dict kvs m k = m k"
  by (induction kvs arbitrary: m) auto

lemma py_dict_last:
  "i < length kvs \<Longrightarrow> fst (kvs ! i) = k
   \<Longrightarrow> \<forall>j. i < j \<and> j < length kvs \<longrightarrow> fst (kvs ! j) \<noteq> k
   \<Longrightarrow> py_dict kvs m k = Some (snd (kvs ! i))"
proof (induction kvs arbitrary: m i)
  case Nil
  then show ?case by simp
next
  case (Cons a kvs)
  obtain k0 v0 where a: "a = (k0, v0)" by (cases a)
  show ?case
  proof (cases i)
    case 0
    have "k \<notin> fst ` set kvs"
    proof
      assume "k \<in> fst ` set kvs"
      then obtain j where "j < length kvs" "fst (kvs ! j) = k"
        by (auto simp: in_set_conv_nth)
      with Cons.prems(3) 0 show False
        by (auto dest: spec [of _ "Suc j"])
    qed
    with Cons.prems 0 a show ?thesis
      by (simp add: py_dict_absent)
  next
    case (Suc i')
    have "py_dict kvs (m(k0 \<mapsto> v0)) k = Some (snd (kvs ! i'))"
    proof (rule Cons.IH)
      show "i' < length kvs" using Cons.prems(1) Suc by simp
      show "fst (kvs ! i') = k" using Cons.prems(2) Suc by simp
      show "\<forall>j. i' < j \<and> j < length kvs \<longrightarrow> fst (kvs ! j) \<noteq> k"
      proof (intro allI impI)
        fix j assume "i' < j \<and> j < length kvs"
        with Cons.prems(3) Suc show "fst (kvs ! j) \<noteq> k"
          by (auto dest: spec [of _ "Suc j"])
      qed
    qed
    with Suc a show ?thesis by simp
  qed
qed

lemma py_dict_present:
  "k \<in> fst ` set kvs \<Longrightarrow> \<exists>v. py_dict kvs m k = Some v"
proof (induction kvs arbitrary: m)
  case Nil
  then show ?case by simp
next
  case (Cons a kvs)
  obtain k0 v0 where a: "a = (k0, v0)" by (cases a)
  show ?case
  proof (cases "k \<in> fst ` set kvs")
    case True
    with Cons.IH a show ?thesis by simp
  next
    case False
    with Cons.prems a show ?thesis by (simp add: py_dict_absent)
  qed
qed

lemma map_result_total:
  "\<forall>x \<in> set xs. \<exists>y. f x = Inr y
   \<Longrightarrow> \<exists>ys. map_result f xs = Inr ys \<and> length ys = length xs
            \<and> (\<forall>k < length xs. f (xs ! k) = Inr (ys ! k))"
proof (induction xs)
  case Nil
  then show ?case by simp
next
  case (Cons x xs)
  then obtain y where y: "f x = Inr y" by auto
  from Cons obtain ys where ys: "map_result f xs = Inr ys" "length ys = length xs"
    "\<forall>k < length xs. f (xs ! k) = Inr (ys ! k)" by auto
  have "\<forall>k < length (x # xs). f ((x # xs) ! k) = Inr ((y # ys) ! k)"
    using y ys(3) by (auto simp: nth_Cons split: nat.splits)
  with y ys show ?case by simp
qed

text \<open>
  C4 (amended): \<open>dict(zip(hashable_corpus, sentences))\<close> inserts the pairs in sentence
  order and a later pair overwrites an earlier one, so a key shared by several sentences
  is associated with the LAST of them (last-writer-wins). When every ranked document
  occurs in the corpus, \<open>_get_important_sentences\<close> raises nothing, returns one
  sentence per ranked document, and resolves each ranked document to the sentence at
  the last position whose document equals it.
\<close>

theorem get_important_sentences_last_writer:
  assumes docs: "set important_docs \<subseteq> set (take (length sentences) corpus)"
  shows "\<exists>result. get_important_sentences sentences corpus important_docs = Inr result
           \<and> length result = length important_docs
           \<and> (\<forall>k i. k < length important_docs \<and> i < length corpus \<and> i < length sentences
                    \<and> corpus ! i = important_docs ! k
                    \<and> (\<forall>j. i < j \<and> j < length corpus \<and> j < length sentences
                           \<longrightarrow> corpus ! j \<noteq> important_docs ! k)
                  \<longrightarrow> result ! k = sentences ! i)"
proof -
  let ?kvs = "zip (build_hasheable_corpus corpus) sentences"
  let ?d = "py_dict ?kvs Map.empty"
  let ?f = "\<lambda>important_doc. py_getitem ?d (Tuple important_doc)"
  have keys: "fst ` set ?kvs = Tuple ` set (take (length sentences) corpus)"
  proof -
    have "map fst ?kvs = take (length sentences) (map Tuple corpus)"
      by (simp add: build_hasheable_corpus_def map_fst_zip_take min_def)
    then have "set (map fst ?kvs) = set (take (length sentences) (map Tuple corpus))"
      by simp
    then show ?thesis by (simp add: take_map)
  qed
  have "\<forall>x \<in> set important_docs. \<exists>y. ?f x = Inr y"
  proof
    fix x assume "x \<in> set important_docs"
    with docs keys have "Tuple x \<in> fst ` set ?kvs" by auto
    from py_dict_present [OF this, of Map.empty]
    obtain v where "?d (Tuple x) = Some v" ..
    then show "\<exists>y. ?f x = Inr y" by (simp add: py_getitem_def)
  qed
  from map_result_total [OF this]
  obtain ys where ys: "map_result ?f important_docs = Inr ys" "length ys = length important_docs"
    "\<forall>k < length important_docs. ?f (important_docs ! k) = Inr (ys ! k)" by blast
  have "ys ! k = sentences ! i"
    if k: "k < length important_docs" and i: "i < length corpus" "i < length sentences"
      and eq: "corpus ! i = important_docs ! k"
      and last: "\<forall>j. i < j \<and> j < length corpus \<and> j < length sentences \<longrightarrow> corpus ! j \<noteq> important_docs ! k"
    for k i
  proof -
    have len: "length ?kvs = min (length corpus) (length sentences)"
      by (simp add: build_hasheable_corpus_def)
    have "?d (Tuple (important_docs ! k)) = Some (snd (?kvs ! i))"
    proof (rule py_dict_last)
      show "i < length ?kvs" using i len by simp
      show "fst (?kvs ! i) = Tuple (important_docs ! k)"
        using i eq by (simp add: build_hasheable_corpus_def)
      show "\<forall>j. i < j \<and> j < length ?kvs \<longrightarrow> fst (?kvs ! j) \<noteq> Tuple (important_docs ! k)"
        using last by (simp add: build_hasheable_corpus_def)
    qed
    then have "?f (important_docs ! k) = Inr (sentences ! i)"
      using i by (simp add: py_getitem_def build_hasheable_corpus_def)
    with ys(3) k show ?thesis by simp
  qed
  then have "\<forall>k i. k < length important_docs \<and> i < length corpus \<and> i < length sentences
                    \<and> corpus ! i = important_docs ! k
                    \<and> (\<forall>j. i < j \<and> j < length corpus \<and> j < length sentences
                           \<longrightarrow> corpus ! j \<noteq> important_docs ! k)
                  \<longrightarrow> ys ! k = sentences ! i"
    by blast
  moreover have "get_important_sentences sentences corpus important_docs = Inr ys"
    using ys(1) by (simp add: get_important_sentences_def Let_def)
  ultimately show ?thesis
    using ys(2) by blast
qed

theorem get_important_sentences_last_writer_witness:
  "set [[(0, 1), (1, 1)]] \<subseteq> set (take (length [example_first, example_second]) [[(0, 1), (1, 1)], [(0, 1), (1, 1)]])
   \<and> get_important_sentences [example_first, example_second]
         [[(0, 1), (1, 1)], [(0, 1), (1, 1)]] [[(0, 1), (1, 1)]] = Inr [example_second]"
proof -
  let ?ss = "[example_first, example_second]"
  let ?corpus = "[[(0, 1), (1, 1)], [(0, 1), (1, 1)]] :: bow list"
  let ?docs = "[[(0, 1), (1, 1)]] :: bow list"
  have sub: "set ?docs \<subseteq> set (take (length ?ss) ?corpus)"
    by simp
  from get_important_sentences_last_writer [OF sub]
  obtain result where r: "get_important_sentences ?ss ?corpus ?docs = Inr result"
    "length result = length ?docs"
    "\<forall>k i. k < length ?docs \<and> i < length ?corpus \<and> i < length ?ss
            \<and> ?corpus ! i = ?docs ! k
            \<and> (\<forall>j. i < j \<and> j < length ?corpus \<and> j < length ?ss \<longrightarrow> ?corpus ! j \<noteq> ?docs ! k)
          \<longrightarrow> result ! k = ?ss ! i"
    by blast
  from r(3) have "(0::nat) < length ?docs \<and> (1::nat) < length ?corpus \<and> (1::nat) < length ?ss
            \<and> ?corpus ! 1 = ?docs ! 0
            \<and> (\<forall>j. 1 < j \<and> j < length ?corpus \<and> j < length ?ss \<longrightarrow> ?corpus ! j \<noteq> ?docs ! 0)
          \<longrightarrow> result ! 0 = ?ss ! 1"
    by blast
  then have "result ! 0 = example_second"
    by simp
  moreover from r(2) have "length result = 1"
    by simp
  ultimately have "result = [example_second]"
    by (cases result) auto
  with r(1) sub show ?thesis
    by simp
qed

text \<open>
  C4 as stated fails: two sentences with the same document, and the ranked document
  resolves to the second sentence, not to the first.
\<close>

theorem first_writer_wins_counterexample:
  "get_important_sentences [example_first, example_second]
         [[(0, 1), (1, 1)], [(0, 1), (1, 1)]] [[(0, 1), (1, 1)]] = Inr [example_second]
   \<and> get_important_sentences [example_first, example_second]
         [[(0, 1), (1, 1)], [(0, 1), (1, 1)]] [[(0, 1), (1, 1)]] \<noteq> Inr [example_first]"
  by (simp add: get_important_sentences_def build_hasheable_corpus_def py_getitem_def
      example_first_def example_second_def)

section \<open>Word-count selection\<close>

lemma total_words_take_Suc:
  "m < length ss \<Longrightarrow> total_words (take (Suc m) ss) = total_words (take m ss) + words_in (ss ! m)"
  by (simp add: total_words_def take_Suc_conv_app_nth)

lemma word_count_loop_prefix:
  "\<exists>k \<le> length rest.
     word_count_loop rest wc len selected = selected @ take k rest
     \<and> (\<forall>m < k. \<not> \<bar>wc - (len + total_words (take m rest)) - words_in (rest ! m)\<bar>
                    > \<bar>wc - (len + total_words (take m rest))\<bar>)
     \<and> (k < length rest \<longrightarrow>
          \<bar>wc - (len + total_words (take k rest)) - words_in (rest ! k)\<bar>
            > \<bar>wc - (len + total_words (take k rest))\<bar>)"
proof (induction rest arbitrary: len selected)
  case Nil
  then show ?case by simp
next
  case (Cons s rest)
  show ?case
  proof (cases "\<bar>wc - len - words_in s\<bar> > \<bar>wc - len\<bar>")
    case True
    then have "word_count_loop (s # rest) wc len selected = selected @ take 0 (s # rest)"
      by (simp add: Let_def)
    moreover have "\<bar>wc - (len + total_words (take 0 (s # rest))) - words_in ((s # rest) ! 0)\<bar>
            > \<bar>wc - (len + total_words (take 0 (s # rest)))\<bar>"
      using True by (simp add: total_words_def)
    ultimately show ?thesis
      by (intro exI [of _ 0]) simp
  next
    case False
    from Cons.IH [of "len + words_in s" "selected @ [s]"]
    obtain k where k: "k \<le> length rest"
      "word_count_loop rest wc (len + words_in s) (selected @ [s]) = (selected @ [s]) @ take k rest"
      "\<forall>m < k. \<not> \<bar>wc - (len + words_in s + total_words (take m rest)) - words_in (rest ! m)\<bar>
                    > \<bar>wc - (len + words_in s + total_words (take m rest))\<bar>"
      "k < length rest \<longrightarrow>
          \<bar>wc - (len + words_in s + total_words (take k rest)) - words_in (rest ! k)\<bar>
            > \<bar>wc - (len + words_in s + total_words (take k rest))\<bar>"
      by blast
    have tw: "total_words (s # xs) = words_in s + total_words xs" for xs
      by (simp add: total_words_def)
    have a: "word_count_loop (s # rest) wc len selected = selected @ take (Suc k) (s # rest)"
      using False k(2) by (simp add: Let_def)
    have b: "\<not> \<bar>wc - (len + total_words (take m (s # rest))) - words_in ((s # rest) ! m)\<bar>
                    > \<bar>wc - (len + total_words (take m (s # rest)))\<bar>" if "m < Suc k" for m
    proof (cases m)
      case 0
      with False show ?thesis by (simp add: total_words_def)
    next
      case (Suc m')
      with that k(3) have "\<not> \<bar>wc - (len + words_in s + total_words (take m' rest)) - words_in (rest ! m')\<bar>
                    > \<bar>wc - (len + words_in s + total_words (take m' rest))\<bar>"
        by simp
      with Suc show ?thesis
        by (simp add: tw add.assoc)
    qed
    have c: "Suc k < length (s # rest) \<longrightarrow>
          \<bar>wc - (len + total_words (take (Suc k) (s # rest))) - words_in ((s # rest) ! Suc k)\<bar>
            > \<bar>wc - (len + total_words (take (Suc k) (s # rest)))\<bar>"
      using k(4) by (simp add: tw add.assoc)
    from a b c k(1) show ?thesis
      by (intro exI [of _ "Suc k"]) simp
  qed
qed

text \<open>
  C3 (amended): for every importance-ordered sentence list and every target word
  count, the word-count selection walks the list from an empty running count and
  accepts a candidate unless accepting it strictly increases the absolute distance
  between the running word count and the target (a candidate that leaves the distance
  unchanged is accepted); at the first candidate that strictly increases the distance
  it stops and returns exactly the sentences accepted so far, a prefix of the list.
\<close>

theorem get_sentences_with_word_count_prefix:
  "\<exists>k \<le> length sentences.
     get_sentences_with_word_count sentences word_count = take k sentences
     \<and> (\<forall>m < k. \<bar>word_count - total_words (take m sentences) - words_in (sentences ! m)\<bar>
                    \<le> \<bar>word_count - total_words (take m sentences)\<bar>)
     \<and> (k < length sentences \<longrightarrow>
          \<bar>word_count - total_words (take k sentences) - words_in (sentences ! k)\<bar>
            > \<bar>word_count - total_words (take k sentences)\<bar>)"
proof -
  from word_count_loop_prefix [of sentences word_count 0 "[]"]
  obtain k where k: "k \<le> length sentences"
     "word_count_loop sentences word_count 0 [] = [] @ take k sentences"
     "\<forall>m < k. \<not> \<bar>word_count - (0 + total_words (take m sentences)) - words_in (sentences ! m)\<bar>
                    > \<bar>word_count - (0 + total_words (take m sentences))\<bar>"
     "k < length sentences \<longrightarrow>
          \<bar>word_count - (0 + total_words (take k sentences)) - words_in (sentences ! k)\<bar>
            > \<bar>word_count - (0 + total_words (take k sentences))\<bar>"
    by blast
  from k(3) have "\<forall>m < k. \<bar>word_count - total_words (take m sentences) - words_in (sentences ! m)\<bar>
                    \<le> \<bar>word_count - total_words (take m sentences)\<bar>"
    by (simp add: not_less)
  with k(1,2,4) show ?thesis
    unfolding get_sentences_with_word_count_def by (intro exI [of _ k]) simp
qed

theorem get_sentences_with_word_count_prefix_witness:
  "get_sentences_with_word_count example_ranked 10 = take 2 example_ranked
   \<and> 2 < length example_ranked
   \<and> \<bar>10 - total_words (take 2 example_ranked) - words_in (example_ranked ! 2)\<bar>
       > \<bar>10 - total_words (take 2 example_ranked)\<bar>"
proof -
  let ?ss = example_ranked
  have len: "length ?ss = 3"
    by (simp add: example_ranked_def)
  have w: "words_in (?ss ! 0) = 4" "words_in (?ss ! 1) = 5" "words_in (?ss ! 2) = 7"
    by code_simp+
  have t: "total_words (take 0 ?ss) = 0" "total_words (take 1 ?ss) = 4"
    "total_words (take 2 ?ss) = 9"
    by code_simp+
  from get_sentences_with_word_count_prefix [of ?ss 10]
  obtain k where k: "k \<le> length ?ss"
    "get_sentences_with_word_count ?ss 10 = take k ?ss"
    "\<forall>m < k. \<bar>10 - total_words (take m ?ss) - words_in (?ss ! m)\<bar> \<le> \<bar>10 - total_words (take m ?ss)\<bar>"
    "k < length ?ss \<longrightarrow>
       \<bar>10 - total_words (take k ?ss) - words_in (?ss ! k)\<bar> > \<bar>10 - total_words (take k ?ss)\<bar>"
    by blast
  have "k = 0 \<or> k = 1 \<or> k = 2 \<or> k = 3"
    using k(1) len by arith
  moreover have "k \<noteq> 0"
  proof
    assume "k = 0"
    with k(4) len have "\<bar>10 - total_words (take 0 ?ss) - words_in (?ss ! 0)\<bar> > \<bar>10 - total_words (take 0 ?ss)\<bar>"
      by simp
    then show False unfolding w t by simp
  qed
  moreover have "k \<noteq> 1"
  proof
    assume "k = 1"
    with k(4) len have "\<bar>10 - total_words (take 1 ?ss) - words_in (?ss ! 1)\<bar> > \<bar>10 - total_words (take 1 ?ss)\<bar>"
      by simp
    then show False unfolding w t by simp
  qed
  moreover have "k \<noteq> 3"
  proof
    assume "k = 3"
    with k(3) have "\<bar>10 - total_words (take 2 ?ss) - words_in (?ss ! 2)\<bar> \<le> \<bar>10 - total_words (take 2 ?ss)\<bar>"
      by simp
    then show False unfolding w t by simp
  qed
  ultimately have k2: "k = 2" by blast
  have "(2::nat) < length ?ss" using len by simp
  with k(2,4) show ?thesis unfolding k2 by simp
qed

text \<open>
  The word count is that of \<open>str.split()\<close>, which also splits at the whitespace
  beyond ASCII: a no-break space separates two words, so with target 1 the sentence of
  three words \<open>example_nbsp\<close> is not accepted.
\<close>

lemma word_count_no_break_space:
  "words_in example_nbsp = 3 \<and> get_sentences_with_word_count [example_nbsp] 1 = []"
  by code_simp

text \<open>
  C3 as stated fails: with target 1, a first sentence of two words is accepted although
  the distance stays 1 and is not strictly reduced.
\<close>

theorem word_count_strict_counterexample:
  "get_sentences_with_word_count [example_first] 1 = [example_first]
   \<and> \<not> \<bar>1 - 0 - words_in example_first\<bar> < \<bar>1 - (0::int)\<bar>"
  by code_simp

section \<open>Sentence-count selection\<close>

text \<open>
  What the loop of \<open>_get_group_of_best_sentences\<close> computes: it starts with the
  first sentence and \<open>count = 1\<close> and goes on while \<open>count <= nb_sentences\<close>, so it
  stops with \<open>nb_sentences + 1\<close> distinct sentences, or with all of them.
\<close>

lemma group_loop_invariant:
  "distinct selected \<Longrightarrow> set selected = set (take i sentences) \<Longrightarrow> count = int (length selected)
   \<Longrightarrow> i \<le> length sentences \<Longrightarrow> count \<le> nb_sentences + 1
   \<Longrightarrow> distinct (group_loop sentences nb_sentences i count selected)
       \<and> set selected \<subseteq> set (group_loop sentences nb_sentences i count selected)
       \<and> set (group_loop sentences nb_sentences i count selected) \<subseteq> set sentences
       \<and> int (length (group_loop sentences nb_sentences i count selected))
           = min (nb_sentences + 1) (int (card (set sentences)))"
proof (induction sentences nb_sentences i count selected rule: group_loop.induct)
  case (1 sentences nb_sentences i count selected)
  show ?case
  proof (cases "count \<le> nb_sentences \<and> i < length sentences")
    case False
    then have out: "group_loop sentences nb_sentences i count selected = selected"
      by (subst group_loop.simps) auto
    have sub: "set selected \<subseteq> set sentences"
      using "1.prems"(2) by (auto dest: in_set_takeD)
    have card: "card (set selected) = length selected"
      using "1.prems"(1) by (simp add: distinct_card)
    have le: "length selected \<le> card (set sentences)"
      using sub card card_mono [of "set sentences" "set selected"] by simp
    have "int (length selected) = min (nb_sentences + 1) (int (card (set sentences)))"
    proof (cases "count \<le> nb_sentences")
      case True
      with False "1.prems"(4) have "i = length sentences" by simp
      with "1.prems"(2) have "set selected = set sentences" by simp
      with card have "length selected = card (set sentences)" by simp
      with "1.prems"(3,5) show ?thesis by simp
    next
      case False
      with "1.prems"(5) have "count = nb_sentences + 1" by simp
      with "1.prems"(3) le show ?thesis by simp
    qed
    with out sub "1.prems"(1) show ?thesis by simp
  next
    case True
    then have i: "i < length sentences" and c: "count \<le> nb_sentences" by simp_all
    have tk: "set (take (Suc i) sentences) = insert (sentences ! i) (set (take i sentences))"
      using i by (simp add: take_Suc_conv_app_nth)
    show ?thesis
    proof (cases "sentences ! i \<notin> set selected")
      case new: True
      have step: "group_loop sentences nb_sentences i count selected
            = group_loop sentences nb_sentences (Suc i) (count + 1) (selected @ [sentences ! i])"
        using True new by (subst group_loop.simps) simp
      have "distinct (group_loop sentences nb_sentences (Suc i) (count + 1) (selected @ [sentences ! i]))
       \<and> set (selected @ [sentences ! i]) \<subseteq> set (group_loop sentences nb_sentences (Suc i) (count + 1) (selected @ [sentences ! i]))
       \<and> set (group_loop sentences nb_sentences (Suc i) (count + 1) (selected @ [sentences ! i])) \<subseteq> set sentences
       \<and> int (length (group_loop sentences nb_sentences (Suc i) (count + 1) (selected @ [sentences ! i])))
           = min (nb_sentences + 1) (int (card (set sentences)))"
      proof (rule "1.IH"(1) [OF True new])
        show "distinct (selected @ [sentences ! i])" using "1.prems"(1) new by simp
        show "set (selected @ [sentences ! i]) = set (take (Suc i) sentences)"
          using "1.prems"(2) tk by simp
        show "count + 1 = int (length (selected @ [sentences ! i]))" using "1.prems"(3) by simp
        show "Suc i \<le> length sentences" using i by simp
        show "count + 1 \<le> nb_sentences + 1" using c by simp
      qed
      with step show ?thesis by simp
    next
      case old: False
      have step: "group_loop sentences nb_sentences i count selected
            = group_loop sentences nb_sentences (Suc i) count selected"
        using True old by (subst group_loop.simps) simp
      have "distinct (group_loop sentences nb_sentences (Suc i) count selected)
       \<and> set selected \<subseteq> set (group_loop sentences nb_sentences (Suc i) count selected)
       \<and> set (group_loop sentences nb_sentences (Suc i) count selected) \<subseteq> set sentences
       \<and> int (length (group_loop sentences nb_sentences (Suc i) count selected))
           = min (nb_sentences + 1) (int (card (set sentences)))"
      proof (rule "1.IH"(2) [OF True old])
        show "distinct selected" by (rule "1.prems"(1))
        show "set selected = set (take (Suc i) sentences)"
          using "1.prems"(2) tk old by auto
        show "count = int (length selected)" by (rule "1.prems"(3))
        show "Suc i \<le> length sentences" using i by simp
        show "count \<le> nb_sentences + 1" using c by simp
      qed
      with step show ?thesis by simp
    qed
  qed
qed

lemma get_group_of_best_sentences_size:
  assumes "sentences \<noteq> []" and "0 \<le> nb_sentences"
  shows "\<exists>r. get_group_of_best_sentences sentences nb_sentences = Inr r
           \<and> distinct r \<and> hd sentences \<in> set r \<and> set r \<subseteq> set sentences
           \<and> int (length r) = min (nb_sentences + 1) (int (card (set sentences)))"
proof -
  from assms(1) obtain s rest where sr: "sentences = s # rest" by (cases sentences) auto
  have "distinct (group_loop sentences nb_sentences 1 1 [s])
       \<and> set [s] \<subseteq> set (group_loop sentences nb_sentences 1 1 [s])
       \<and> set (group_loop sentences nb_sentences 1 1 [s]) \<subseteq> set sentences
       \<and> int (length (group_loop sentences nb_sentences 1 1 [s]))
           = min (nb_sentences + 1) (int (card (set sentences)))"
  proof (rule group_loop_invariant)
    show "distinct [s]" by simp
    show "set [s] = set (take 1 sentences)" using sr by simp
    show "1 = int (length [s])" by simp
    show "1 \<le> length sentences" using sr by simp
    show "1 \<le> nb_sentences + 1" using assms(2) by simp
  qed
  moreover have "get_group_of_best_sentences sentences nb_sentences
      = Inr (group_loop sentences nb_sentences 1 1 [s])"
    using sr by (simp add: get_group_of_best_sentences_def py_index_def)
  ultimately show ?thesis using sr by simp
qed

text \<open>
  C2 fails on the code: asked for one sentence out of two different ones,
  \<open>_get_group_of_best_sentences\<close> returns both, where the claim has
  \<open>min(1, 2) = 1\<close> sentence.
\<close>

theorem get_group_of_best_sentences_one_too_many:
  "get_group_of_best_sentences [example_first, example_second] 1
     = Inr [example_first, example_second]
   \<and> length [example_first, example_second]
       \<noteq> min 1 (card (set [example_first, example_second]))"
proof -
  have "example_first \<noteq> example_second"
    by (simp add: example_first_def example_second_def)
  then have "card (set [example_first, example_second]) = 2"
    by simp
  moreover have "get_group_of_best_sentences [example_first, example_second] 1
     = Inr [example_first, example_second]"
    by code_simp
  ultimately show ?thesis by simp
qed

theorem get_group_of_best_sentences_one_too_many_witness:
  "map_sum id length (get_group_of_best_sentences [example_first, example_second] 1) = Inr 2"
  using get_group_of_best_sentences_one_too_many by simp

section \<open>The corpus ranker\<close>















lemma example_corpus5_of_text:
  "build_corpus example_env (clean_text_by_sentences example_env example_text5) = example_corpus5"
  by code_simp








section \<open>The result of \<open>summarize\<close>\<close>

text \<open>
  \<open>summarize\<close> returns the selected sentence objects as they are: the call of
  \<open>_format_results\<close> is commented out, so above one sentence a non-empty result is a
  list of sentence objects and does not depend on \<open>split\<close>.
\<close>

lemma summarize_ignores_split:
  assumes "summarize env txt ratio word_count nb_sentences split = Inr v"
    and "v \<noteq> PyList []" and "v \<noteq> PyStr []"
  shows "(\<exists>ss. ss \<noteq> [] \<and> v = PyList (map PySentence ss))
         \<and> summarize env txt ratio word_count nb_sentences (\<not> split) = Inr v"
  using assms
  by (auto simp: summarize_def Let_def split: sum.splits if_splits)

text \<open>
  C1 fails on the code: on a text of three sentences, \<open>summarize\<close> returns the list
  of the three sentence objects with \<open>split=True\<close> and with \<open>split=False\<close>, where
  the claim (and the docstring) has the list of their texts and the texts joined by
  newlines, which is what \<open>_format_results\<close> would give.
\<close>

theorem summarize_returns_sentence_objects:
  "summarize example_env example_text (PyInt 1) None None True = Inr (PyList (map PySentence example_summary))
   \<and> summarize example_env example_text (PyInt 1) None None False = Inr (PyList (map PySentence example_summary))
   \<and> format_results example_summary True = PyList [PyStr [0x62, 0x20, 0x63], PyStr [0x61, 0x20, 0x62], PyStr [0x63, 0x20, 0x64]]
   \<and> format_results example_summary False = PyStr ([0x62, 0x20, 0x63] @ [0x0A] @ [0x61, 0x20, 0x62] @ [0x0A] @ [0x63, 0x20, 0x64])"
proof -
  have "summarize example_env example_text (PyInt 1) None None True = Inr (PyList (map PySentence example_summary))"
    by code_simp
  moreover have "summarize example_env example_text (PyInt 1) None None False = Inr (PyList (map PySentence example_summary))"
    by code_simp
  moreover have "format_results example_summary True = PyList [PyStr [0x62, 0x20, 0x63], PyStr [0x61, 0x20, 0x62], PyStr [0x63, 0x20, 0x64]]"
    by (simp add: format_results_def example_summary_def)
  moreover have "format_results example_summary False = PyStr ([0x62, 0x20, 0x63] @ [0x0A] @ [0x61, 0x20, 0x62] @ [0x0A] @ [0x63, 0x20, 0x64])"
    by (simp add: format_results_def example_summary_def)
  ultimately show ?thesis by blast
qed

theorem summarize_returns_sentence_objects_witness:
  "summarize example_env example_text (PyInt 1) None None True \<noteq> Inr (format_results example_summary True)
   \<and> summarize example_env example_text (PyInt 1) None None False \<noteq> Inr (format_results example_summary False)
   \<and> summarize example_env example_text (PyInt 1) None None True
       = summarize example_env example_text (PyInt 1) None None False"
  using summarize_returns_sentence_objects by (simp add: example_summary_def)

section \<open>The weighting pass\<close>

lemma weigh_entries_append:
  "weigh_entries documents (es @ es') g =
     (case weigh_entries documents es g of Inl e \<Rightarrow> Inl e | Inr g' \<Rightarrow> weigh_entries documents es' g')"
proof (induction es arbitrary: g)
  case Nil
  then show ?case by simp
next
  case (Cons x es)
  obtain i j w where x: "x = (i, j, w)" by (cases x)
  show ?case
    unfolding x using Cons.IH
    by (simp split: sum.splits)
qed

lemma weigh_row_entries:
  "weigh_row documents i doc_bow g = weigh_entries documents (map (\<lambda>(j, weight). (i, j, weight)) doc_bow) g"
proof (induction doc_bow arbitrary: g)
  case Nil
  then show ?case by simp
next
  case (Cons x doc_bow)
  obtain j w where x: "x = (j, w)" by (cases x)
  show ?case
    unfolding x using Cons.IH
    by (simp split: sum.splits)
qed

lemma weigh_rows_entries:
  "weigh_rows documents i rows g = weigh_entries documents (flat_entries i rows) g"
proof (induction rows arbitrary: i g)
  case Nil
  then show ?case by simp
next
  case (Cons doc_bow rows)
  show ?case
    using Cons.IH
    by (simp add: weigh_entries_append weigh_row_entries split: sum.splits)
qed

lemma has_edge_iff: "has_edge g e \<longleftrightarrow> (\<exists>x \<in> set (edge_list g). same_edge e (fst x))"
  by (simp add: has_edge_def list_ex_iff)

lemma has_edge_weight: "has_edge g e \<longleftrightarrow> edge_weight g e \<noteq> None"
  by (simp add: has_edge_iff edge_weight_def find_None_iff Bex_def)

lemma edge_weight_add_edge:
  "edge_weight (add_edge g e' w) e =
     (case edge_weight g e of Some v \<Rightarrow> Some v
      | None \<Rightarrow> if same_edge e e' then Some w else None)"
proof -
  have "find P (xs @ [y]) = (case find P xs of Some v \<Rightarrow> Some v | None \<Rightarrow> if P y then Some y else None)"
    for P and xs :: "(('a \<times> 'a) \<times> real) list" and y
    by (induction xs) auto
  then show ?thesis
    by (simp add: edge_weight_def add_edge_def split: option.splits)
qed

lemma same_edge_nth:
  assumes "distinct ds" "i < length ds" "j < length ds" "a < length ds" "b < length ds"
  shows "same_edge (ds ! a, ds ! b) (ds ! i, ds ! j) \<longleftrightarrow> (i = a \<and> j = b) \<or> (i = b \<and> j = a)"
  using assms by (auto simp: same_edge_def nth_eq_iff_index_eq)

lemma same_edge_sym: "same_edge e e' \<longleftrightarrow> same_edge e' e"
  by (cases e; cases e') (auto simp: same_edge_def)

lemma weigh_entries_first:
  assumes "distinct ds" "a < length ds" "b < length ds"
  shows "weigh_entries ds es g = Inr g'
    \<Longrightarrow> edge_weight g' (ds ! a, ds ! b) =
         (case edge_weight g (ds ! a, ds ! b) of Some v \<Rightarrow> Some v
          | None \<Rightarrow> map_option (\<lambda>x. snd (snd x)) (find (connects a b) es))"
proof (induction es arbitrary: g)
  case Nil
  then show ?case by (simp split: option.splits)
next
  case (Cons x es)
  obtain i j w where x: "x = (i, j, w)" by (cases x)
  show ?case
  proof (cases "i = j \<or> w < WEIGHT_THRESHOLD")
    case True
    then have nc: "\<not> connects a b x"
      by (auto simp: x connects_def passes_def)
    from True Cons.prems have "weigh_entries ds es g = Inr g'"
      by (simp add: x)
    from Cons.IH [OF this] nc show ?thesis
      by (simp split: option.splits)
  next
    case False
    then have pass: "passes x" by (simp add: x passes_def)
    from False Cons.prems have ij: "i < length ds" "j < length ds"
      by (auto simp: x py_index_def split: if_splits)
    let ?e = "(ds ! i, ds ! j)"
    let ?g1 = "if \<not> has_edge g ?e then add_edge g ?e w else g"
    from False Cons.prems ij have run: "weigh_entries ds es ?g1 = Inr g'"
      by (simp add: x py_index_def)
    note ih = Cons.IH [OF run]
    have se: "same_edge (ds ! a, ds ! b) ?e \<longleftrightarrow> connects a b x"
      using same_edge_nth [OF assms(1) ij assms(2,3)] pass by (simp add: x connects_def)
    show ?thesis
    proof (cases "edge_weight g (ds ! a, ds ! b)")
      case (Some v)
      then have "edge_weight ?g1 (ds ! a, ds ! b) = Some v"
        by (simp add: edge_weight_add_edge)
      with ih Some show ?thesis by simp
    next
      case None
      show ?thesis
      proof (cases "connects a b x")
        case True
        with se have s: "same_edge (ds ! a, ds ! b) ?e" by simp
        then have "same_edge ?e (ds ! a, ds ! b)" using same_edge_sym by fast
        have "\<not> has_edge g ?e"
        proof
          assume "has_edge g ?e"
          then obtain y where y: "y \<in> set (edge_list g)" "same_edge ?e (fst y)"
            by (auto simp: has_edge_iff)
          from s y(2) have "same_edge (ds ! a, ds ! b) (fst y)"
            by (auto simp: same_edge_def)
          with y(1) have "has_edge g (ds ! a, ds ! b)" by (auto simp: has_edge_iff)
          with None show False by (simp add: has_edge_weight)
        qed
        then have "edge_weight ?g1 (ds ! a, ds ! b) = Some w"
          using None s by (simp add: edge_weight_add_edge)
        with ih None True show ?thesis by (simp add: x)
      next
        case False
        with se have "\<not> same_edge (ds ! a, ds ! b) ?e" by simp
        then have "edge_weight ?g1 (ds ! a, ds ! b) = None"
          using None by (simp add: edge_weight_add_edge)
        with ih None False show ?thesis by simp
      qed
    qed
  qed
qed

lemma single_weighted_iff:
  "single_weighted g \<longleftrightarrow>
     distinct (map fst (edge_list g))
     \<and> (\<forall>e \<in> fst ` set (edge_list g). \<forall>e' \<in> fst ` set (edge_list g). same_edge e e' = (e = e'))"
  by (simp add: single_weighted_def list_all_iff iter_edges_def)

lemma same_edge_refl: "same_edge e e"
  by (simp add: same_edge_def)

lemma single_weighted_add_edge:
  assumes "single_weighted g" and "\<not> has_edge g e"
  shows "single_weighted (add_edge g e w)"
proof -
  from assms(2) have new: "\<forall>x \<in> set (edge_list g). \<not> same_edge e (fst x)"
    by (simp add: has_edge_iff)
  then have notin: "e \<notin> fst ` set (edge_list g)"
    using same_edge_refl by fastforce
  from new have new': "\<forall>x \<in> set (edge_list g). \<not> same_edge (fst x) e"
    using same_edge_sym by fast
  from assms(1) have d: "distinct (map fst (edge_list g))"
    and s: "\<forall>e \<in> fst ` set (edge_list g). \<forall>e' \<in> fst ` set (edge_list g). same_edge e e' = (e = e')"
    by (simp_all add: single_weighted_iff)
  have "distinct (map fst (edge_list (add_edge g e w)))"
    using d notin by (simp add: add_edge_def)
  moreover have "\<forall>a \<in> fst ` set (edge_list (add_edge g e w)).
           \<forall>b \<in> fst ` set (edge_list (add_edge g e w)). same_edge a b = (a = b)"
  proof (intro ballI)
    fix a b
    assume a: "a \<in> fst ` set (edge_list (add_edge g e w))"
      and b: "b \<in> fst ` set (edge_list (add_edge g e w))"
    from a have a': "a = e \<or> a \<in> fst ` set (edge_list g)" by (auto simp: add_edge_def)
    from b have b': "b = e \<or> b \<in> fst ` set (edge_list g)" by (auto simp: add_edge_def)
    show "same_edge a b = (a = b)"
    proof (cases "a = e")
      case ae: True
      show ?thesis
      proof (cases "b = e")
        case True
        with ae show ?thesis by (simp add: same_edge_refl)
      next
        case False
        with b' have "b \<in> fst ` set (edge_list g)" by simp
        with new notin ae show ?thesis by auto
      qed
    next
      case an: False
      with a' have ain: "a \<in> fst ` set (edge_list g)" by simp
      show ?thesis
      proof (cases "b = e")
        case True
        with ain new' notin show ?thesis by auto
      next
        case False
        with b' have "b \<in> fst ` set (edge_list g)" by simp
        with ain s show ?thesis by blast
      qed
    qed
  qed
  ultimately show ?thesis
    by (simp add: single_weighted_iff)
qed

lemma weigh_entries_invariant:
  assumes "distinct ds"
  shows "weigh_entries ds es g = Inr g'
    \<Longrightarrow> node_list g' = node_list g
        \<and> (\<forall>x \<in> set (edge_list g'). x \<in> set (edge_list g)
              \<or> (\<exists>i j. i < length ds \<and> j < length ds \<and> i \<noteq> j \<and> fst x = (ds ! i, ds ! j)
                       \<and> WEIGHT_THRESHOLD \<le> snd x))
        \<and> (single_weighted g \<longrightarrow> single_weighted g')"
proof (induction es arbitrary: g)
  case Nil
  then show ?case by simp
next
  case (Cons x es)
  obtain i j w where x: "x = (i, j, w)" by (cases x)
  show ?case
  proof (cases "i = j \<or> w < WEIGHT_THRESHOLD")
    case True
    with Cons.prems have "weigh_entries ds es g = Inr g'"
      by (simp add: x)
    from Cons.IH [OF this] show ?thesis .
  next
    case False
    from False Cons.prems have ij: "i < length ds" "j < length ds"
      by (auto simp: x py_index_def split: if_splits)
    let ?e = "(ds ! i, ds ! j)"
    let ?g1 = "if \<not> has_edge g ?e then add_edge g ?e w else g"
    from False Cons.prems ij have run: "weigh_entries ds es ?g1 = Inr g'"
      by (simp add: x py_index_def)
    note ih = Cons.IH [OF run]
    have n1: "node_list ?g1 = node_list g"
      by (simp add: add_edge_def)
    have e1: "\<forall>y \<in> set (edge_list ?g1). y \<in> set (edge_list g)
              \<or> (\<exists>i j. i < length ds \<and> j < length ds \<and> i \<noteq> j \<and> fst y = (ds ! i, ds ! j)
                       \<and> WEIGHT_THRESHOLD \<le> snd y)"
    proof
      fix y assume "y \<in> set (edge_list ?g1)"
      then have "y \<in> set (edge_list g) \<or> y = (?e, w)"
        by (auto simp: add_edge_def split: if_splits)
      then show "y \<in> set (edge_list g)
              \<or> (\<exists>i j. i < length ds \<and> j < length ds \<and> i \<noteq> j \<and> fst y = (ds ! i, ds ! j)
                       \<and> WEIGHT_THRESHOLD \<le> snd y)"
      proof
        assume "y \<in> set (edge_list g)" then show ?thesis by simp
      next
        assume "y = (?e, w)"
        with False ij have "i < length ds \<and> j < length ds \<and> i \<noteq> j \<and> fst y = (ds ! i, ds ! j)
                       \<and> WEIGHT_THRESHOLD \<le> snd y"
          by simp
        then show ?thesis by blast
      qed
    qed
    have s1: "single_weighted g \<longrightarrow> single_weighted ?g1"
      by (simp add: single_weighted_add_edge)
    from ih n1 e1 s1 show ?thesis
      by (metis (no_types, lifting))
  qed
qed

lemma distinct_add_nodes: "distinct acc \<Longrightarrow> distinct (add_nodes items acc)"
  by (induction items arbitrary: acc) auto

lemma set_add_nodes: "set (add_nodes items acc) = set acc \<union> set items"
  by (induction items arbitrary: acc) auto

lemma build_graph_props:
  "distinct (nodes (build_graph items))" "edge_list (build_graph items) = []"
  "set (nodes (build_graph items)) = set items" "wf_graph (build_graph items)"
  by (simp_all add: build_graph_def nodes_def distinct_add_nodes set_add_nodes wf_graph_def)

text \<open>
  C9: after the pairwise weighting pass on the graph built from the corpus (before the
  degeneracy fallback), the graph has its nodes unchanged and no self-edge, every edge
  weight is at or above the threshold and so non-negative, and each unordered pair of
  nodes carries at most one weight: the weight of the pair of positions \<open>a\<close> and
  \<open>b\<close> is that of the first entry of the table, in the order of the loops, that
  passes the test and joins \<open>a\<close> and \<open>b\<close> in either direction, and there is no
  edge when there is no such entry; a later entry for the pair is discarded.
\<close>

theorem weighting_pass_invariant:
  assumes "weighting_pass bm25 (build_graph items) = Inr g"
  shows "nodes g = nodes (build_graph items)
         \<and> no_self_edges g
         \<and> list_all (\<lambda>x. WEIGHT_THRESHOLD \<le> snd x \<and> 0 \<le> snd x) (edge_list g)
         \<and> single_weighted g
         \<and> (\<forall>a b. a < length (nodes g) \<and> b < length (nodes g) \<longrightarrow>
               edge_weight g (nodes g ! a, nodes g ! b)
                 = map_option (\<lambda>x. snd (snd x)) (find (connects a b) (flat_entries 0 (bm25 (nodes g)))))"
proof -
  let ?g0 = "build_graph items"
  let ?ds = "nodes ?g0"
  let ?es = "flat_entries 0 (bm25 ?ds)"
  have d: "distinct ?ds" by (rule build_graph_props)
  from assms have run: "weigh_entries ?ds ?es ?g0 = Inr g"
    by (simp add: weighting_pass_def Let_def weigh_rows_entries)
  have sw0: "single_weighted ?g0"
    by (simp add: single_weighted_def iter_edges_def build_graph_props)
  from weigh_entries_invariant [OF d run] sw0
  have n: "node_list g = node_list ?g0"
    and e: "\<forall>x \<in> set (edge_list g). \<exists>i j. i < length ?ds \<and> j < length ?ds \<and> i \<noteq> j
                \<and> fst x = (?ds ! i, ?ds ! j) \<and> WEIGHT_THRESHOLD \<le> snd x"
    and s: "single_weighted g"
    by (simp_all add: build_graph_props)
  from n have ng: "nodes g = ?ds" by (simp add: nodes_def)
  have self: "no_self_edges g"
    unfolding no_self_edges_def list_all_iff
  proof
    fix x assume "x \<in> set (edge_list g)"
    with e obtain i j where "i < length ?ds" "j < length ?ds" "i \<noteq> j" "fst x = (?ds ! i, ?ds ! j)"
      by blast
    with d show "fst (fst x) \<noteq> snd (fst x)"
      by (simp add: nth_eq_iff_index_eq)
  qed
  have w: "list_all (\<lambda>x. WEIGHT_THRESHOLD \<le> snd x \<and> 0 \<le> snd x) (edge_list g)"
    unfolding list_all_iff
  proof
    fix x assume "x \<in> set (edge_list g)"
    with e have "WEIGHT_THRESHOLD \<le> snd x" by blast
    then show "WEIGHT_THRESHOLD \<le> snd x \<and> 0 \<le> snd x"
      by (simp add: WEIGHT_THRESHOLD_def)
  qed
  have f: "edge_weight g (?ds ! a, ?ds ! b) = map_option (\<lambda>x. snd (snd x)) (find (connects a b) ?es)"
    if "a < length ?ds" "b < length ?ds" for a b
  proof -
    have "edge_weight ?g0 (?ds ! a, ?ds ! b) = None"
      by (simp add: edge_weight_def build_graph_props)
    with weigh_entries_first [OF d that run] show ?thesis by simp
  qed
  from ng self w s f show ?thesis by simp
qed

theorem weighting_pass_invariant_witness:
  "weighting_pass (\<lambda>ds. example_table) (build_graph ''abcb'') = Inr example_weighted
   \<and> no_self_edges example_weighted
   \<and> single_weighted example_weighted
   \<and> edge_weight example_weighted (CHR ''b'', CHR ''a'') = Some (1 / 2)"
proof -
  have run: "weighting_pass (\<lambda>ds. example_table) (build_graph ''abcb'') = Inr example_weighted"
    by code_simp
  note t = weighting_pass_invariant [OF run]
  have first: "find (connects 1 0) (flat_entries 0 example_table) = Some (0, 1, 1 / 2)"
    by code_simp
  have ns: "nodes example_weighted = ''abc''"
    by (simp add: nodes_def example_weighted_def)
  from t have "(1::nat) < length (nodes example_weighted) \<and> (0::nat) < length (nodes example_weighted) \<longrightarrow>
               edge_weight example_weighted (nodes example_weighted ! 1, nodes example_weighted ! 0)
                 = map_option (\<lambda>x. snd (snd x)) (find (connects 1 0) (flat_entries 0 example_table))"
    by blast
  then have "edge_weight example_weighted (CHR ''b'', CHR ''a'') = Some (1 / 2)"
    unfolding first ns by simp
  with run t show ?thesis by blast
qed

section \<open>The degeneracy fallback\<close>

lemma fold_product:
  "fold (\<lambda>i. fold (\<lambda>j. f (i, j)) ys) xs = fold f (List.product xs ys)"
proof (induction xs)
  case Nil
  then show ?case by simp
next
  case (Cons x xs)
  have "fold (\<lambda>j. f (x, j)) ys = fold f (map (Pair x) ys)"
    by (simp add: fold_map comp_def)
  with Cons show ?case by simp
qed

lemma create_valid_graph_fold:
  "create_valid_graph graph =
     fold (valid_step (nodes graph)) (List.product [0 ..< length (nodes graph)] [0 ..< length (nodes graph)]) graph"
  by (simp add: create_valid_graph_def Let_def fold_product)

lemma valid_step_edges:
  assumes "i \<noteq> j"
  shows "edge_list (valid_step ns (i, j) g)
           = filter (\<lambda>x. \<not> same_edge (ns ! i, ns ! j) (fst x)) (edge_list g) @ [((ns ! i, ns ! j), 1)]"
proof (cases "has_edge g (ns ! i, ns ! j)")
  case True
  with assms show ?thesis
    by (simp add: valid_step_def Let_def add_edge_def del_edge_def)
next
  case False
  then have "filter (\<lambda>x. \<not> same_edge (ns ! i, ns ! j) (fst x)) (edge_list g) = edge_list g"
    by (simp add: has_edge_iff)
  with False assms show ?thesis
    by (simp add: valid_step_def Let_def add_edge_def)
qed

lemma valid_step_nodes: "node_list (valid_step ns p g) = node_list g"
  by (cases p) (simp add: valid_step_def Let_def add_edge_def del_edge_def)

lemma valid_step_keeps_edge:
  assumes "has_edge g e"
  shows "has_edge (valid_step ns p g) e"
proof -
  obtain i j where p: "p = (i, j)" by (cases p)
  show ?thesis
  proof (cases "i = j")
    case True
    with assms p show ?thesis by (simp add: valid_step_def)
  next
    case False
    from assms obtain x where x: "x \<in> set (edge_list g)" "same_edge e (fst x)"
      by (auto simp: has_edge_iff)
    show ?thesis
    proof (cases "same_edge (ns ! i, ns ! j) (fst x)")
      case True
      with x(2) have "same_edge e (ns ! i, ns ! j)"
        by (cases e; cases "fst x") (auto simp: same_edge_def)
      then show ?thesis
        unfolding p has_edge_iff valid_step_edges [OF False] by simp
    next
      case no: False
      with x(1) have "x \<in> set (filter (\<lambda>x. \<not> same_edge (ns ! i, ns ! j) (fst x)) (edge_list g))"
        by simp
      with x(2) show ?thesis
        unfolding p has_edge_iff valid_step_edges [OF False] by (intro bexI [of _ x]) simp_all
    qed
  qed
qed

lemma fold_valid_step_keeps_edge:
  "has_edge g e \<Longrightarrow> has_edge (fold (valid_step ns) ps g) e"
  by (induction ps arbitrary: g) (simp_all add: valid_step_keeps_edge)

lemma fold_valid_step_nodes: "node_list (fold (valid_step ns) ps g) = node_list g"
  by (induction ps arbitrary: g) (simp_all add: valid_step_nodes)

lemma fold_valid_step_connects:
  "(i, j) \<in> set ps \<Longrightarrow> i \<noteq> j \<Longrightarrow> has_edge (fold (valid_step ns) ps g) (ns ! i, ns ! j)"
proof (induction ps arbitrary: g)
  case Nil
  then show ?case by simp
next
  case (Cons p ps)
  show ?case
  proof (cases "p = (i, j)")
    case True
    have "has_edge (valid_step ns (i, j) g) (ns ! i, ns ! j)"
      unfolding has_edge_iff valid_step_edges [OF Cons.prems(2)] by (simp add: same_edge_refl)
    with True show ?thesis
      by (simp add: fold_valid_step_keeps_edge)
  next
    case False
    with Cons.prems have "(i, j) \<in> set ps" by simp
    from Cons.IH [OF this Cons.prems(2)] show ?thesis by simp
  qed
qed

lemma fold_valid_step_weights:
  "x \<in> set (edge_list (fold (valid_step ns) ps g))
   \<Longrightarrow> snd x = 1
       \<or> (x \<in> set (edge_list g)
           \<and> (\<forall>i j. (i, j) \<in> set ps \<longrightarrow> i \<noteq> j \<longrightarrow> \<not> same_edge (ns ! i, ns ! j) (fst x)))"
proof (induction ps arbitrary: g)
  case Nil
  then show ?case by simp
next
  case (Cons p ps)
  obtain i j where p: "p = (i, j)" by (cases p)
  from Cons.prems have "x \<in> set (edge_list (fold (valid_step ns) ps (valid_step ns p g)))"
    by simp
  from Cons.IH [OF this] show ?case
  proof
    assume "snd x = 1" then show ?thesis by simp
  next
    assume a: "x \<in> set (edge_list (valid_step ns p g))
           \<and> (\<forall>i j. (i, j) \<in> set ps \<longrightarrow> i \<noteq> j \<longrightarrow> \<not> same_edge (ns ! i, ns ! j) (fst x))"
    show ?thesis
    proof (cases "i = j")
      case True
      with a p show ?thesis by (simp add: valid_step_def)
    next
      case False
      from a have "x \<in> set (edge_list (valid_step ns (i, j) g))" by (simp add: p)
      then have "x = ((ns ! i, ns ! j), 1)
                 \<or> (x \<in> set (edge_list g) \<and> \<not> same_edge (ns ! i, ns ! j) (fst x))"
        unfolding valid_step_edges [OF False] by auto
      then show ?thesis
      proof
        assume "x = ((ns ! i, ns ! j), 1)" then show ?thesis by simp
      next
        assume "x \<in> set (edge_list g) \<and> \<not> same_edge (ns ! i, ns ! j) (fst x)"
        with a p show ?thesis by simp
      qed
    qed
  qed
qed

lemma create_valid_graph_complete:
  assumes "wf_graph g"
  shows "nodes (create_valid_graph g) = nodes g"
    and "\<forall>u \<in> set (nodes g). \<forall>v \<in> set (nodes g). u \<noteq> v \<longrightarrow>
           has_edge (create_valid_graph g) (u, v) \<and> edge_weight (create_valid_graph g) (u, v) = Some 1"
    and "\<forall>x \<in> set (edge_list (create_valid_graph g)). snd x = 1"
proof -
  let ?ns = "nodes g"
  let ?ps = "List.product [0 ..< length ?ns] [0 ..< length ?ns]"
  let ?g' = "create_valid_graph g"
  have g': "?g' = fold (valid_step ?ns) ?ps g"
    by (rule create_valid_graph_fold)
  show n: "nodes ?g' = nodes g"
    by (simp add: g' nodes_def fold_valid_step_nodes)
  show w: "\<forall>x \<in> set (edge_list ?g'). snd x = 1"
  proof
    fix x assume "x \<in> set (edge_list ?g')"
    then have "x \<in> set (edge_list (fold (valid_step ?ns) ?ps g))" by (simp add: g')
    from fold_valid_step_weights [OF this]
    show "snd x = 1"
    proof
      assume "snd x = 1" then show ?thesis .
    next
      assume a: "x \<in> set (edge_list g)
           \<and> (\<forall>i j. (i, j) \<in> set ?ps \<longrightarrow> i \<noteq> j \<longrightarrow> \<not> same_edge (?ns ! i, ?ns ! j) (fst x))"
      with assms have "fst (fst x) \<in> set ?ns" "snd (fst x) \<in> set ?ns" "fst (fst x) \<noteq> snd (fst x)"
        by (simp_all add: wf_graph_def list_all_iff nodes_def)
      then obtain i j where ij: "i < length ?ns" "j < length ?ns" "?ns ! i = fst (fst x)"
        "?ns ! j = snd (fst x)" "i \<noteq> j"
        by (metis in_set_conv_nth)
      then have "(i, j) \<in> set ?ps" by simp
      with a ij(5) have "\<not> same_edge (?ns ! i, ?ns ! j) (fst x)" by simp
      with ij(3,4) have False by (simp add: same_edge_def)
      then show ?thesis ..
    qed
  qed
  show "\<forall>u \<in> set ?ns. \<forall>v \<in> set ?ns. u \<noteq> v \<longrightarrow>
           has_edge ?g' (u, v) \<and> edge_weight ?g' (u, v) = Some 1"
  proof (intro ballI impI)
    fix u v assume u: "u \<in> set ?ns" and v: "v \<in> set ?ns" and uv: "u \<noteq> v"
    then obtain i j where ij: "i < length ?ns" "j < length ?ns" "?ns ! i = u" "?ns ! j = v"
      by (metis in_set_conv_nth)
    with uv have "i \<noteq> j" by auto
    moreover from ij have "(i, j) \<in> set ?ps" by simp
    ultimately have "has_edge (fold (valid_step ?ns) ?ps g) (?ns ! i, ?ns ! j)"
      by (rule fold_valid_step_connects [rotated])
    with ij have h: "has_edge ?g' (u, v)" by (simp add: g')
    then obtain y where y: "edge_weight ?g' (u, v) = Some y"
      by (auto simp: has_edge_weight)
    then obtain x where fx: "find (\<lambda>x. same_edge (u, v) (fst x)) (edge_list ?g') = Some x" and "snd x = y"
      by (auto simp: edge_weight_def)
    from fx have "x \<in> set (edge_list ?g')"
      unfolding find_Some_iff by (meson nth_mem)
    with w have "snd x = 1" by (rule_tac bspec)
    with \<open>snd x = y\<close> have "y = 1" by simp
    with h y show "has_edge ?g' (u, v) \<and> edge_weight ?g' (u, v) = Some 1" by simp
  qed
qed

lemma weigh_entries_wf:
  assumes "wf_graph g" and "weigh_entries (nodes g) es g = Inr g'"
  shows "wf_graph g'"
proof -
  have d: "distinct (nodes g)" using assms(1) by (simp add: wf_graph_def nodes_def)
  from weigh_entries_invariant [OF d assms(2)]
  have n: "node_list g' = node_list g"
    and e: "\<forall>x \<in> set (edge_list g'). x \<in> set (edge_list g)
              \<or> (\<exists>i j. i < length (nodes g) \<and> j < length (nodes g) \<and> i \<noteq> j
                    \<and> fst x = (nodes g ! i, nodes g ! j) \<and> WEIGHT_THRESHOLD \<le> snd x)"
    by simp_all
  have "fst (fst x) \<in> set (node_list g') \<and> snd (fst x) \<in> set (node_list g')
                      \<and> fst (fst x) \<noteq> snd (fst x)" if "x \<in> set (edge_list g')" for x
  proof -
    from e that have "x \<in> set (edge_list g)
              \<or> (\<exists>i j. i < length (nodes g) \<and> j < length (nodes g) \<and> i \<noteq> j
                    \<and> fst x = (nodes g ! i, nodes g ! j) \<and> WEIGHT_THRESHOLD \<le> snd x)"
      by blast
    then show ?thesis
    proof
      assume "x \<in> set (edge_list g)"
      with assms(1) n show ?thesis by (simp add: wf_graph_def list_all_iff)
    next
      assume "\<exists>i j. i < length (nodes g) \<and> j < length (nodes g) \<and> i \<noteq> j
                    \<and> fst x = (nodes g ! i, nodes g ! j) \<and> WEIGHT_THRESHOLD \<le> snd x"
      then obtain i j where "i < length (nodes g)" "j < length (nodes g)" "i \<noteq> j"
        "fst x = (nodes g ! i, nodes g ! j)" by blast
      with d n show ?thesis by (simp add: nodes_def nth_eq_iff_index_eq)
    qed
  qed
  with assms(1) n show ?thesis
    by (simp add: wf_graph_def list_all_iff)
qed

text \<open>
  C6: if after the pairwise weighting pass every edge of the graph has weight exactly
  zero (also when the graph has no edge at all), \<open>_set_graph_edge_weights\<close> replaces
  the edges by a complete graph over the same nodes: every two different nodes are
  joined by an edge, and every edge has weight exactly 1.
\<close>

theorem set_graph_edge_weights_fallback:
  assumes "wf_graph g0" and "weighting_pass bm25 g0 = Inr g" and "all_weights_zero g"
  shows "\<exists>g'. set_graph_edge_weights bm25 g0 = Inr g'
           \<and> nodes g' = nodes g0
           \<and> (\<forall>u \<in> set (nodes g'). \<forall>v \<in> set (nodes g'). u \<noteq> v \<longrightarrow>
                 has_edge g' (u, v) \<and> edge_weight g' (u, v) = Some 1)
           \<and> (\<forall>x \<in> set (edge_list g'). snd x = 1)"
proof -
  from assms(2) have run: "weigh_entries (nodes g0) (flat_entries 0 (bm25 (nodes g0))) g0 = Inr g"
    by (simp add: weighting_pass_def Let_def weigh_rows_entries)
  from weigh_entries_wf [OF assms(1) run] have wf: "wf_graph g" .
  have d: "distinct (nodes g0)" using assms(1) by (simp add: wf_graph_def nodes_def)
  from weigh_entries_invariant [OF d run] have n: "nodes g = nodes g0"
    by (simp add: nodes_def)
  note c = create_valid_graph_complete [OF wf]
  have "set_graph_edge_weights bm25 g0 = Inr (create_valid_graph g)"
    using assms(2,3) by (simp add: set_graph_edge_weights_def)
  with c n show ?thesis by simp
qed

theorem set_graph_edge_weights_fallback_witness:
  "wf_graph example_zero
   \<and> weighting_pass (\<lambda>ds. example_low) example_zero = Inr example_zero
   \<and> all_weights_zero example_zero
   \<and> set_graph_edge_weights (\<lambda>ds. example_low) example_zero = Inr example_complete
   \<and> has_edge example_complete (CHR ''a'', CHR ''c'')
   \<and> edge_weight example_complete (CHR ''a'', CHR ''c'') = Some 1"
proof -
  have h1: "wf_graph example_zero"
    by code_simp
  have h2: "weighting_pass (\<lambda>ds. example_low) example_zero = Inr example_zero"
    by code_simp
  have h3: "all_weights_zero example_zero"
    by code_simp
  have v: "set_graph_edge_weights (\<lambda>ds. example_low) example_zero = Inr example_complete"
    by code_simp
  from set_graph_edge_weights_fallback [OF h1 h2 h3] v
  have c: "\<forall>u \<in> set (nodes example_complete). \<forall>v \<in> set (nodes example_complete). u \<noteq> v \<longrightarrow>
                 has_edge example_complete (u, v) \<and> edge_weight example_complete (u, v) = Some 1"
    by auto
  have "CHR ''a'' \<in> set (nodes example_complete)" "CHR ''c'' \<in> set (nodes example_complete)"
    by (simp_all add: nodes_def example_complete_def)
  with c have "has_edge example_complete (CHR ''a'', CHR ''c'')
     \<and> edge_weight example_complete (CHR ''a'', CHR ''c'') = Some 1"
    by auto
  with h1 h2 h3 v show ?thesis by blast
qed

section \<open>The corpus argument of \<open>summarize_corpus\<close>\<close>

lemma extends_refl: "wf_store s \<Longrightarrow> extends s s"
  by (simp add: extends_def)

lemma extends_trans: "extends s s1 \<Longrightarrow> extends s1 s2 \<Longrightarrow> extends s s2"
  by (auto simp: extends_def)

lemma alloc_extends:
  assumes "wf_store s" and "alloc v s = (a, s')"
  shows "extends s s'" and "a = next_addr s" and "next_addr s' = Suc a" and "cells s' a = Some v"
  using assms by (auto simp: alloc_def extends_def wf_store_def)

lemma alloc_docs_extends:
  "wf_store s \<Longrightarrow> alloc_docs docs s = (as, s')
   \<Longrightarrow> extends s s' \<and> map_result (load_doc s') as = Inr docs \<and> (\<forall>x \<in> set as. next_addr s \<le> x)"
proof (induction docs arbitrary: s as s')
  case Nil
  then show ?case by (auto simp: extends_refl)
next
  case (Cons doc docs)
  obtain a s1 where a: "alloc (PairList doc) s = (a, s1)" by (cases "alloc (PairList doc) s")
  obtain bs s2 where b: "alloc_docs docs s1 = (bs, s2)" by (cases "alloc_docs docs s1")
  note a1 = alloc_extends [OF Cons.prems(1) a]
  from a1(1) have wf1: "wf_store s1" by (simp add: extends_def)
  from Cons.IH [OF wf1 b] have e12: "extends s1 s2" and l: "map_result (load_doc s2) bs = Inr docs"
    and f: "\<forall>x \<in> set bs. next_addr s1 \<le> x"
    by simp_all
  from Cons.prems(2) a b have r: "as = a # bs" "s' = s2" by simp_all
  from e12 a1(3,4) have "cells s2 a = Some (PairList doc)"
    by (simp add: extends_def)
  then have ld: "load_doc s2 a = Inr doc" by (simp add: load_doc_def)
  from f a1(2,3) have "\<forall>x \<in> set (a # bs). next_addr s \<le> x"
    by auto
  with ld l r extends_trans [OF a1(1) e12] show ?case by simp
qed

lemma new_corpus_extends:
  assumes "wf_store s"
  shows "\<exists>a s' as. new_corpus docs s = (Inr a, s') \<and> extends s s' \<and> read_corpus s' a = Inr docs
           \<and> next_addr s \<le> a \<and> load_refs s' a = Inr as \<and> (\<forall>x \<in> set as. next_addr s \<le> x)"
proof -
  obtain as s1 where d: "alloc_docs docs s = (as, s1)" by (cases "alloc_docs docs s")
  obtain a s2 where a: "alloc (RefList as) s1 = (a, s2)" by (cases "alloc (RefList as) s1")
  from alloc_docs_extends [OF assms d] have e1: "extends s s1"
    and l: "map_result (load_doc s1) as = Inr docs"
    and f: "\<forall>x \<in> set as. next_addr s \<le> x" by simp_all
  from e1 have wf1: "wf_store s1" by (simp add: extends_def)
  note a2 = alloc_extends [OF wf1 a]
  have same: "load_doc s2 x = load_doc s1 x" if "load_doc s1 x = Inr y" for x y
  proof -
    from that have "cells s1 x \<noteq> None" by (auto simp: load_doc_def split: option.splits)
    with wf1 have "x < next_addr s1" by (auto simp: wf_store_def not_le [symmetric])
    with a2(1) have "cells s2 x = cells s1 x" by (simp add: extends_def)
    then show ?thesis by (simp add: load_doc_def)
  qed
  have "map_result (load_doc s1) xs = Inr ys \<Longrightarrow> map_result (load_doc s2) xs = Inr ys" for xs ys
  proof (induction xs arbitrary: ys)
    case Nil
    then show ?case by simp
  next
    case (Cons x xs)
    then show ?case
      by (auto simp: same split: sum.splits)
  qed
  with l have "map_result (load_doc s2) as = Inr docs" by simp
  with a2(4) have rd: "read_corpus s2 a = Inr docs" and lr: "load_refs s2 a = Inr as"
    by (simp_all add: read_corpus_def load_refs_def)
  have nc: "new_corpus docs s = (Inr a, s2)"
    using d a by (simp add: new_corpus_def)
  have fresh: "next_addr s \<le> a"
    using e1 a2(2) by (simp add: extends_def)
  from nc rd lr fresh f extends_trans [OF e1 a2(1)] show ?thesis
    by blast
qed

lemma read_corpus_extends:
  assumes "wf_store s" and "extends s s'" and "read_corpus s corpus = Inr docs"
  shows "read_corpus s' corpus = Inr docs"
proof -
  have keep: "cells s' x = cells s x" if "cells s x \<noteq> None" for x
  proof -
    from that assms(1) have "x < next_addr s" by (auto simp: wf_store_def not_le [symmetric])
    with assms(2) show ?thesis by (simp add: extends_def)
  qed
  from assms(3) obtain refs where refs: "load_refs s corpus = Inr refs"
    and docs: "map_result (load_doc s) refs = Inr docs"
    by (auto simp: read_corpus_def split: sum.splits)
  from refs have "cells s corpus \<noteq> None" by (auto simp: load_refs_def split: option.splits)
  from keep [OF this] refs have refs': "load_refs s' corpus = Inr refs"
    by (simp add: load_refs_def)
  have same: "load_doc s' x = load_doc s x" if "load_doc s x = Inr y" for x y
  proof -
    from that have "cells s x \<noteq> None" by (auto simp: load_doc_def split: option.splits)
    from keep [OF this] show ?thesis by (simp add: load_doc_def)
  qed
  have "map_result (load_doc s) xs = Inr ys \<Longrightarrow> map_result (load_doc s') xs = Inr ys" for xs ys
  proof (induction xs arbitrary: ys)
    case Nil
    then show ?case by simp
  next
    case (Cons x xs)
    then show ?case
      by (auto simp: same split: sum.splits)
  qed
  with docs refs' show ?thesis by (simp add: read_corpus_def)
qed

lemma map_result_length: "map_result f xs = Inr ys \<Longrightarrow> length ys = length xs"
  by (induction xs arbitrary: ys) (auto split: sum.splits)

text \<open>
  The store version computes what \<open>summarize_corpus\<close> computes on the value of the
  corpus, in new objects, and keeps every object that was there.
\<close>

lemma summarize_corpus_st_refines:
  assumes wf: "wf_store s"
  shows "case read_corpus s corpus of
           Inl e \<Rightarrow> summarize_corpus_st env s corpus ratio = (Inl e, s)
         | Inr docs \<Rightarrow>
             (\<exists>r s'. summarize_corpus_st env s corpus ratio = (r, s') \<and> extends s s'
                \<and> (case r of Inl e \<Rightarrow> summarize_corpus env docs ratio = Inl e
                    | Inr a \<Rightarrow> read_corpus s' a = summarize_corpus env docs ratio
                        \<and> next_addr s \<le> a
                        \<and> (\<exists>as. load_refs s' a = Inr as \<and> (\<forall>x \<in> set as. next_addr s \<le> x))))"
proof (cases "read_corpus s corpus")
  case (Inl e)
  then show ?thesis
    by (simp add: summarize_corpus_st_def build_hasheable_corpus_st_def)
next
  case (Inr docs)
  obtain h s1 where al: "alloc (TupleList (map Tuple docs)) s = (h, s1)"
    by (cases "alloc (TupleList (map Tuple docs)) s")
  note a1 = alloc_extends [OF wf al]
  from a1(1) have wf1: "wf_store s1" by (simp add: extends_def)
  have bh: "build_hasheable_corpus_st s corpus = (Inr h, s1)"
    using Inr al by (simp add: build_hasheable_corpus_st_def)
  from read_corpus_extends [OF wf a1(1) Inr] obtain refs
    where refs: "load_refs s1 corpus = Inr refs" and ld: "map_result (load_doc s1) refs = Inr docs"
    by (auto simp: read_corpus_def split: sum.splits)
  from map_result_length [OF ld] have len: "length refs = length docs" by simp
  have lt: "load_tuples s1 h = Inr (map Tuple docs)"
    using a1(4) by (simp add: load_tuples_def)
  have goal: "\<exists>r s'. summarize_corpus_st env s corpus ratio = (r, s') \<and> extends s s'
                \<and> (case r of Inl e \<Rightarrow> summarize_corpus env docs ratio = Inl e
                    | Inr a \<Rightarrow> read_corpus s' a = summarize_corpus env docs ratio
                        \<and> next_addr s \<le> a
                        \<and> (\<exists>as. load_refs s' a = Inr as \<and> (\<forall>x \<in> set as. next_addr s \<le> x)))"
  proof (cases "docs = []")
    case True
    from new_corpus_extends [OF wf1, of "[]"] obtain a s' as
      where n: "new_corpus [] s1 = (Inr a, s')" "extends s1 s'" "read_corpus s' a = Inr []"
        and fr: "next_addr s1 \<le> a" "load_refs s' a = Inr as" "\<forall>x \<in> set as. next_addr s1 \<le> x"
      by blast
    from fr a1(2,3) have fr': "next_addr s \<le> a"
      "\<exists>as. load_refs s' a = Inr as \<and> (\<forall>x \<in> set as. next_addr s \<le> x)"
      by auto
    have "summarize_corpus_st env s corpus ratio = (Inr a, s')"
      using bh refs len True n(1) by (simp add: summarize_corpus_st_def)
    moreover have "summarize_corpus env docs ratio = Inr []"
      using True by (simp add: summarize_corpus_def Let_def)
    ultimately show ?thesis
      using n(3) fr' extends_trans [OF a1(1) n(2)] by simp
  next
    case ne: False
    with len have rne: "length refs \<noteq> 0" by simp
    show ?thesis
    proof (cases "set_graph_edge_weights (bm25_weights env) (build_graph (map Tuple docs))")
      case (Inl e)
      have "summarize_corpus_st env s corpus ratio = (Inl e, s1)"
        using bh refs rne lt Inl by (simp add: summarize_corpus_st_def)
      moreover have "summarize_corpus env docs ratio = Inl e"
        using ne Inl by (simp add: summarize_corpus_def Let_def build_hasheable_corpus_def)
      ultimately show ?thesis
        using a1(1) by simp
    next
      case (Inr graph1)
      show ?thesis
      proof (cases "length (nodes (remove_unreachable_nodes env graph1)) < 3")
        case True
        from new_corpus_extends [OF wf1, of "[]"] obtain a s' as
          where n: "new_corpus [] s1 = (Inr a, s')" "extends s1 s'" "read_corpus s' a = Inr []"
            and fr: "next_addr s1 \<le> a" "load_refs s' a = Inr as" "\<forall>x \<in> set as. next_addr s1 \<le> x"
          by blast
        from fr a1(2,3) have fr': "next_addr s \<le> a"
          "\<exists>as. load_refs s' a = Inr as \<and> (\<forall>x \<in> set as. next_addr s \<le> x)"
          by auto
        have "summarize_corpus_st env s corpus ratio = (Inr a, s')"
          using bh refs rne lt Inr True n(1) by (simp add: summarize_corpus_st_def Let_def)
        moreover have "summarize_corpus env docs ratio = Inr []"
          using ne Inr True by (simp add: summarize_corpus_def Let_def build_hasheable_corpus_def)
        ultimately show ?thesis
          using n(3) fr' extends_trans [OF a1(1) n(2)] by simp
      next
        case False
        let ?key = "\<lambda>doc. py_get (pagerank env (remove_unreachable_nodes env graph1)) doc 0"
        let ?sorted = "sort_key (\<lambda>doc. - ?key doc) (map Tuple docs)"
        let ?s2 = "s1\<lparr>cells := (cells s1)(h \<mapsto> TupleList ?sorted)\<rparr>"
        have srt: "sort_in_place s1 h ?key = Inr ?s2"
          using lt by (simp add: sort_in_place_def)
        have lt2: "load_tuples ?s2 h = Inr ?sorted"
          by (simp add: load_tuples_def)
        have e2: "extends s ?s2"
          using a1 by (auto simp: extends_def wf_store_def)
        then have wf2: "wf_store ?s2" by (simp add: extends_def)
        show ?thesis
        proof (cases "int_len_times (length refs) ratio")
          case err: (Inl e)
          have "summarize_corpus_st env s corpus ratio = (Inl e, ?s2)"
            using bh refs rne lt Inr False srt lt2 err
            by (simp add: summarize_corpus_st_def Let_def)
          moreover have "summarize_corpus env docs ratio = Inl e"
            using ne Inr False len err
            by (simp add: summarize_corpus_def Let_def build_hasheable_corpus_def)
          ultimately show ?thesis
            using e2 by simp
        next
          case num: (Inr k)
          let ?out = "map list_of (py_slice_to ?sorted k)"
          from new_corpus_extends [OF wf2, of ?out] obtain a s' as
            where n: "new_corpus ?out ?s2 = (Inr a, s')" "extends ?s2 s'" "read_corpus s' a = Inr ?out"
              and fr: "next_addr ?s2 \<le> a" "load_refs s' a = Inr as" "\<forall>x \<in> set as. next_addr ?s2 \<le> x"
            by blast
          from fr a1(2,3) have fr': "next_addr s \<le> a"
            "\<exists>as. load_refs s' a = Inr as \<and> (\<forall>x \<in> set as. next_addr s \<le> x)"
            by auto
          have "summarize_corpus_st env s corpus ratio = (Inr a, s')"
            using bh refs rne lt Inr False srt lt2 num n(1)
            by (simp add: summarize_corpus_st_def Let_def)
          moreover have "summarize_corpus env docs ratio = Inr ?out"
            using ne Inr False len num
            by (simp add: summarize_corpus_def Let_def build_hasheable_corpus_def)
          ultimately show ?thesis
            using n(3) fr' extends_trans [OF e2 n(2)] by simp
        qed
      qed
    qed
  qed
  with Inr show ?thesis by simp
qed

text \<open>
  C10: for every corpus and ratio, \<open>summarize_corpus\<close> leaves its corpus argument
  unchanged: after the call the corpus reads element for element as before, every
  object of the store before the call (the corpus list and each of its documents among
  them) is as it was, and the list returned and the documents in it are new objects.
  Only the new list \<open>hashable_corpus\<close> is sorted.
\<close>

theorem summarize_corpus_leaves_corpus:
  assumes "wf_store s" and "summarize_corpus_st env s corpus ratio = (r, s')"
  shows "read_corpus s' corpus = read_corpus s corpus
         \<and> (\<forall>a < next_addr s. cells s' a = cells s a)
         \<and> (\<forall>a. r = Inr a \<longrightarrow>
               next_addr s \<le> a
               \<and> (\<exists>as. load_refs s' a = Inr as \<and> (\<forall>x \<in> set as. next_addr s \<le> x)))"
proof (cases "read_corpus s corpus")
  case (Inl e)
  with summarize_corpus_st_refines [OF assms(1), where corpus = corpus and env = env and ratio = ratio]
    assms(2)
  have "s' = s" "r = Inl e" by simp_all
  then show ?thesis by simp
next
  case (Inr docs)
  with summarize_corpus_st_refines [OF assms(1), where corpus = corpus and env = env and ratio = ratio]
    assms(2)
  have e: "extends s s'"
    and res: "case r of Inl e \<Rightarrow> summarize_corpus env docs ratio = Inl e
              | Inr a \<Rightarrow> read_corpus s' a = summarize_corpus env docs ratio
                  \<and> next_addr s \<le> a
                  \<and> (\<exists>as. load_refs s' a = Inr as \<and> (\<forall>x \<in> set as. next_addr s \<le> x))"
    by auto
  from read_corpus_extends [OF assms(1) e Inr] Inr
  have "read_corpus s' corpus = read_corpus s corpus" by simp
  moreover from e have "\<forall>a < next_addr s. cells s' a = cells s a"
    by (simp add: extends_def)
  moreover have "next_addr s \<le> a
               \<and> (\<exists>as. load_refs s' a = Inr as \<and> (\<forall>x \<in> set as. next_addr s \<le> x))" if "r = Inr a" for a
    using res that by simp
  ultimately show ?thesis by blast
qed

theorem summarize_corpus_leaves_corpus_witness:
  "wf_store example_store
   \<and> read_corpus example_store 3 = Inr example_corpus
   \<and> read_corpus (snd (summarize_corpus_st example_env example_store 3 ratio_0_5)) 3 = Inr example_corpus
   \<and> cells (snd (summarize_corpus_st example_env example_store 3 ratio_0_5)) 3 = Some (RefList [0, 1, 2])"
proof -
  let ?run = "summarize_corpus_st example_env example_store 3 ratio_0_5"
  have wf: "wf_store example_store"
    by (simp add: wf_store_def example_store_def)
  have before: "read_corpus example_store 3 = Inr example_corpus"
    by code_simp
  have cell: "cells example_store 3 = Some (RefList [0, 1, 2])"
    by (simp add: example_store_def)
  have run: "?run = (fst ?run, snd ?run)"
    by simp
  note t = summarize_corpus_leaves_corpus [OF wf run]
  from t before have "read_corpus (snd ?run) 3 = Inr example_corpus"
    by simp
  moreover from t have "(3::nat) < next_addr example_store \<longrightarrow> cells (snd ?run) 3 = cells example_store 3"
    by blast
  then have "cells (snd ?run) 3 = Some (RefList [0, 1, 2])"
    using cell by (simp add: example_store_def)
  ultimately show ?thesis
    using wf before by blast
qed

end
